theory Spec2Isabelle
  imports Complex_Main "HOL-Library.Sublist" "HOL-Library.AList"
begin

section \<open>scholar\_webpages\_to\_singlepage\_pdf.py: shared types\<close>

text \<open>
  Python strings are modelled as \<open>string\<close>, one \<open>char\<close> per code point (the code
  points below 256); file system paths are strings. Python floats are modelled as
  \<open>real\<close>: rounding is not modelled. Exceptions are values of \<open>exn\<close>; a
  computation that may raise returns \<open>exn + 'a\<close> with \<open>Inl\<close> the exception.
\<close>

datatype exn =
    WebDriverException
  | ValueError
  | IndexError
  | ZeroDivisionError
  | FileNotFoundError
  | OtherError

type_synonym path = string

section \<open>Paper height (compute\_full\_height\_inches)\<close>

text \<open>
  Lines 37-47. The argument \<open>scroll_height\<close> is the value that
  \<open>driver.execute_script\<close> returns (line 40), the measured height in CSS pixels;
  the rest of the function is the arithmetic of lines 46-47.
\<close>

definition compute_full_height_inches :: "real \<Rightarrow> real \<Rightarrow> real \<Rightarrow> real \<Rightarrow> real" where
  "compute_full_height_inches scroll_height min_in max_in margin_in =
     (let height_inches = (scroll_height / 96) + (margin_in * 2)
      in max min_in (min height_inches max_in))"

text \<open>The wording of the specification: a value clamped to a closed interval.\<close>

definition clamp_to_interval :: "real \<Rightarrow> real \<Rightarrow> real \<Rightarrow> real" where
  "clamp_to_interval lo hi x = (if x < lo then lo else if hi < x then hi else x)"

section \<open>Merging (merge\_pdfs)\<close>

text \<open>
  Lines 28-35. A PDF document is the list of its pages (what \<open>PdfReader(p).pages\<close>
  yields); the files are a map from paths to documents. \<open>PdfReader\<close> raises when
  the file does not exist. The writer is the list of pages added so far.
\<close>

type_synonym 'p pdf_files = "path \<rightharpoonup> 'p list"

fun add_pages :: "'p list \<Rightarrow> 'p list \<Rightarrow> 'p list" where
  "add_pages writer [] = writer"
| "add_pages writer (page # pages) = add_pages (writer @ [page]) pages"

fun merge_inputs :: "'p pdf_files \<Rightarrow> path list \<Rightarrow> 'p list \<Rightarrow> exn + 'p list" where
  "merge_inputs fs [] writer = Inr writer"
| "merge_inputs fs (p # inputs) writer =
     (case fs p of
        None \<Rightarrow> Inl FileNotFoundError
      | Some pages \<Rightarrow> merge_inputs fs inputs (add_pages writer pages))"

definition merge_pdfs :: "'p pdf_files \<Rightarrow> path list \<Rightarrow> path \<Rightarrow> exn + 'p pdf_files" where
  "merge_pdfs fs inputs output =
     (case merge_inputs fs inputs [] of
        Inl e \<Rightarrow> Inl e
      | Inr writer \<Rightarrow> Inr (fs(output \<mapsto> writer)))"

section \<open>File names (safe\_name and the name of line 187)\<close>

text \<open>
  \<open>str.strip()\<close> removes leading and trailing whitespace; below code point 256 the
  whitespace characters of Python are 9-13, 28-32, 133 and 160.
\<close>

definition isspace :: "char \<Rightarrow> bool" where
  "isspace c = (of_char c \<in> {9, 10, 11, 12, 13, 28, 29, 30, 31, 32, 133, 160 :: nat})"

definition lstrip :: "string \<Rightarrow> string" where
  "lstrip s = dropWhile isspace s"

definition rstrip :: "string \<Rightarrow> string" where
  "rstrip s = rev (dropWhile isspace (rev s))"

definition strip :: "string \<Rightarrow> string" where
  "strip s = rstrip (lstrip s)"

text \<open>
  \<open>s.split(sep)\<close> scans \<open>s\<close> from the left and cuts at every occurrence of
  \<open>sep\<close>, resuming after it; \<open>cur\<close> is the piece read since the last cut. Python
  raises \<open>ValueError\<close> for an empty separator; the program passes the constant
  \<open>"://"\<close> only, and the model never cuts at an empty separator.
\<close>

function split_from :: "string \<Rightarrow> string \<Rightarrow> string \<Rightarrow> string list" where
  "split_from sep cur [] = [cur]"
| "split_from sep cur (c # cs) =
     (if sep \<noteq> [] \<and> prefix sep (c # cs)
      then cur # split_from sep [] (drop (length sep) (c # cs))
      else split_from sep (cur @ [c]) cs)"
  by pat_completeness auto
termination
  by (relation "measure (\<lambda>(sep, cur, s). length s)") (auto simp: neq_Nil_conv)

definition split_str :: "string \<Rightarrow> string \<Rightarrow> string list" where
  "split_str s sep = split_from sep [] s"

text \<open>
  Line 21: \<open>SAFE = re.compile(r"[^a-zA-Z0-9._-]+")\<close>. \<open>SAFE_class\<close> is the set of
  characters the class excludes from a match; \<open>SAFE_sub repl s\<close> is
  \<open>SAFE.sub(repl, s)\<close>: every maximal run of characters outside \<open>SAFE_class\<close>
  is replaced by one \<open>repl\<close>.
\<close>

definition SAFE_class :: "char set" where
  "SAFE_class = set (''abcdefghijklmnopqrstuvwxyz'' @ ''ABCDEFGHIJKLMNOPQRSTUVWXYZ''
                     @ ''0123456789'' @ ''._-'')"

function SAFE_sub :: "string \<Rightarrow> string \<Rightarrow> string" where
  "SAFE_sub repl [] = []"
| "SAFE_sub repl (c # cs) =
     (if c \<in> SAFE_class then c # SAFE_sub repl cs
      else repl @ SAFE_sub repl (dropWhile (\<lambda>d. d \<notin> SAFE_class) cs))"
  by pat_completeness auto
termination
  by (relation "measure (\<lambda>(repl, s). length s)") (auto simp: le_imp_less_Suc length_dropWhile_le)

text \<open>
  Lines 23-26. \<open>[-1]\<close> is the last piece (\<open>split\<close> never returns an empty list);
  \<open>x or "page"\<close> is \<open>"page"\<close> when \<open>x\<close> is the empty string.
\<close>

definition safe_name :: "string \<Rightarrow> string" where
  "safe_name url =
     (let base = last (split_str (strip url) ''://'');
          base = take 150 base;
          r = SAFE_sub ''_'' base
      in if r = [] then ''page'' else r)"

text \<open>
  Line 187: \<open>name = f"{i:03d}_{safe_name(url)}.pdf"\<close>, where \<open>i\<close> counts the URLs
  from 1 (\<open>enumerate(urls, 1)\<close>, line 186). \<open>str_nat\<close> is the decimal numeral of a
  natural number; the format \<open>03d\<close> pads it with zeros on the left to a width of
  at least 3.
\<close>

definition digit_char :: "nat \<Rightarrow> char" where
  "digit_char d = ''0123456789'' ! d"

fun str_nat :: "nat \<Rightarrow> string" where
  "str_nat n = (if n < 10 then [digit_char n] else str_nat (n div 10) @ [digit_char (n mod 10)])"

declare str_nat.simps [simp del]

definition format_03d :: "nat \<Rightarrow> string" where
  "format_03d i = (let s = str_nat i in replicate (3 - length s) (CHR ''0'') @ s)"

definition page_name :: "nat \<Rightarrow> string \<Rightarrow> string" where
  "page_name i url = format_03d i @ ''_'' @ safe_name url @ ''.pdf''"

definition page_names :: "string list \<Rightarrow> string list" where
  "page_names urls = map (\<lambda>(i, url). page_name i url) (zip [1 ..< Suc (length urls)] urls)"

text \<open>Reading a decimal numeral back (Python's \<open>int\<close> on a string of digits).\<close>

definition int_of_digits :: "string \<Rightarrow> nat" where
  "int_of_digits s = foldl (\<lambda>a c. 10 * a + (of_char c - 48)) 0 s"

section \<open>URL range (build\_urls\_from\_range)\<close>

text \<open>\<open>str(s)\<close> for an integer: the decimal numeral, with a minus sign when negative.\<close>

definition str_int :: "int \<Rightarrow> string" where
  "str_int i = (if i < 0 then CHR ''-'' # str_nat (nat (- i)) else str_nat (nat i))"

text \<open>
  The functions \<open>urlparse\<close>, \<open>parse_qs\<close>, \<open>urlencode\<close> and \<open>urlunparse\<close> belong to
  Python's \<open>urllib.parse\<close>, not to this program. \<open>parse_result\<close> is the six-field
  result of \<open>urlparse\<close> (the tuple \<open>urlunparse\<close> takes). The library is a parameter
  \<open>lib\<close> of the model: \<open>urlparse\<close>, \<open>urlencode\<close> and \<open>urlunparse\<close> as they are,
  and \<open>parse_qsl\<close>, the list of decoded (name, value) fields of a query string in
  the order they occur, from which \<open>parse_qs\<close> builds its dictionary.
\<close>

record parse_result =
  scheme :: string
  netloc :: string
  path :: string
  params :: string
  query :: string
  fragment :: string

record urllib =
  urlparse :: "string \<Rightarrow> parse_result"
  parse_qsl :: "string \<Rightarrow> (string \<times> string) list"
  urlencode :: "(string \<times> string) list \<Rightarrow> string"
  urlunparse :: "parse_result \<Rightarrow> string"

text \<open>
  A Python \<open>dict\<close> is an association list in insertion order with distinct keys;
  \<open>d[k] = v\<close> is \<open>AList.update k v d\<close> (in place when the key exists, appended
  otherwise). \<open>parse_qs\<close> collects, for every name, the list of its values:
  \<^verbatim>\<open>if name in parsed_result: parsed_result[name].append(value)\<close>
  \<^verbatim>\<open>else: parsed_result[name] = [value]\<close>
\<close>

fun parse_qs_loop ::
  "(string \<times> string) list \<Rightarrow> (string \<times> string list) list \<Rightarrow> (string \<times> string list) list" where
  "parse_qs_loop [] parsed_result = parsed_result"
| "parse_qs_loop ((name, val) # pairs) parsed_result =
     parse_qs_loop pairs
       (case map_of parsed_result name of
          Some vals \<Rightarrow> AList.update name (vals @ [val]) parsed_result
        | None \<Rightarrow> AList.update name [val] parsed_result)"

definition parse_qs :: "urllib \<Rightarrow> string \<Rightarrow> (string \<times> string list) list" where
  "parse_qs lib qs = parse_qs_loop (parse_qsl lib qs) []"

text \<open>
  \<open>range(start, stop, step)\<close>: ascending for a positive step, descending for a
  negative one, \<open>ValueError\<close> for step 0.
\<close>

function range_from :: "int \<Rightarrow> int \<Rightarrow> int \<Rightarrow> int list" where
  "range_from i stop step =
     (if (0 < step \<and> i < stop) \<or> (step < 0 \<and> stop < i)
      then i # range_from (i + step) stop step
      else [])"
  by pat_completeness auto
termination
  by (relation "measure (\<lambda>(i, stop, step). nat (if 0 < step then stop - i else i - stop))") auto

declare range_from.simps [simp del]

definition py_range :: "int \<Rightarrow> int \<Rightarrow> int \<Rightarrow> exn + int list" where
  "py_range start stop step = (if step = 0 then Inl ValueError else Inr (range_from start stop step))"

text \<open>
  Lines 76-88. \<open>new_query_items q s\<close> is the dictionary given to \<open>urlencode\<close> in
  the loop body (lines 83-85): \<open>q_mod = dict(q)\<close>,
  \<open>q_mod["start"] = [str(s)]\<close>, then every name with \<open>v[0]\<close>, the first of its
  values (every value of \<open>q_mod\<close> is a list; \<open>v[0]\<close> raises \<open>IndexError\<close> on an
  empty one). \<open>new_url\<close> is the whole loop body (lines 83-87), and
  \<open>build_urls_loop\<close> the loop over the range.
\<close>

fun first_values :: "(string \<times> string list) list \<Rightarrow> exn + (string \<times> string) list" where
  "first_values [] = Inr []"
| "first_values ((k, v) # kvs) =
     (case v of
        [] \<Rightarrow> Inl IndexError
      | x # _ \<Rightarrow> (case first_values kvs of Inl e \<Rightarrow> Inl e | Inr r \<Rightarrow> Inr ((k, x) # r)))"

definition new_query_items :: "(string \<times> string list) list \<Rightarrow> int \<Rightarrow> exn + (string \<times> string) list" where
  "new_query_items q s = (let q_mod = AList.update ''start'' [str_int s] q in first_values q_mod)"

definition new_url :: "urllib \<Rightarrow> parse_result \<Rightarrow> (string \<times> string list) list \<Rightarrow> int \<Rightarrow> exn + string" where
  "new_url lib parsed q s =
     (case new_query_items q s of
        Inl e \<Rightarrow> Inl e
      | Inr items \<Rightarrow>
          (let new_query = urlencode lib items
           in Inr (urlunparse lib (parsed\<lparr>query := new_query\<rparr>))))"

fun build_urls_loop ::
  "urllib \<Rightarrow> parse_result \<Rightarrow> (string \<times> string list) list \<Rightarrow> int list \<Rightarrow> string list \<Rightarrow> exn + string list" where
  "build_urls_loop lib parsed q [] urls = Inr urls"
| "build_urls_loop lib parsed q (s # ss) urls =
     (case new_url lib parsed q s of
        Inl e \<Rightarrow> Inl e
      | Inr u \<Rightarrow> build_urls_loop lib parsed q ss (urls @ [u]))"

definition build_urls_from_range :: "urllib \<Rightarrow> string \<Rightarrow> int \<Rightarrow> int \<Rightarrow> int \<Rightarrow> exn + string list" where
  "build_urls_from_range lib base_url start_from start_to step =
     (let parsed = urlparse lib base_url;
          q = parse_qs lib (query parsed)
      in case py_range start_from (start_to + 1) step of
           Inl e \<Rightarrow> Inl e
         | Inr ss \<Rightarrow> build_urls_loop lib parsed q ss [])"

text \<open>
  \<open>first_occurrences pairs\<close>: of the fields of a query, those whose name has not
  occurred before, in order (\<open>seen\<close> are the names that have).
\<close>

fun first_occ_from :: "string set \<Rightarrow> (string \<times> string) list \<Rightarrow> (string \<times> string) list" where
  "first_occ_from seen [] = []"
| "first_occ_from seen ((k, v) # pairs) =
     (if k \<in> seen then first_occ_from seen pairs
      else (k, v) # first_occ_from (insert k seen) pairs)"

definition first_occurrences :: "(string \<times> string) list \<Rightarrow> (string \<times> string) list" where
  "first_occurrences pairs = first_occ_from {} pairs"

text \<open>
  To run the model on concrete URLs: \<open>plain_urllib\<close> behaves as \<open>urllib.parse\<close>
  does on ASCII URLs of the shape \<open>scheme://netloc/path?query#fragment\<close> (a scheme of
  letters, no whitespace, no \<open>;\<close>, no brackets in the netloc) whose query consists of
  fields joined by \<open>&\<close>:
  \<^item> \<open>urlparse\<close> cuts the URL at the first \<open>:\<close>, \<open>#\<close> and \<open>?\<close> and puts the
    scheme in lower case;
  \<^item> \<open>parse_qsl\<close> cuts the query at every \<open>&\<close> and every field at its first
    \<open>=\<close>, drops the fields with an empty value or without \<open>=\<close> (the default
    \<open>keep_blank_values=False\<close>, which line 80 does not change), and decodes names and
    values: \<open>+\<close> is a space, \<open>%XX\<close> (two hexadecimal digits, below 80) the
    character with that code;
  \<^item> \<open>urlencode\<close> writes \<open>name=value\<close> fields joined by \<open>&\<close>, names and
    values encoded by \<open>quote_plus\<close>: letters, digits, \<open>_\<close>, \<open>.\<close>, \<open>-\<close> and
    \<open>~\<close> as they are, a space as \<open>+\<close>, any other character as \<open>%XX\<close> in upper
    case;
  \<^item> \<open>urlunparse\<close> puts the components together again.
  It is used in the concrete examples only; the general theorems hold for every
  \<open>lib\<close>.
\<close>

definition lower_char :: "char \<Rightarrow> char" where
  "lower_char c =
     (case map_of (zip ''ABCDEFGHIJKLMNOPQRSTUVWXYZ'' ''abcdefghijklmnopqrstuvwxyz'') c of
        Some d \<Rightarrow> d
      | None \<Rightarrow> c)"

definition hex_val :: "char \<Rightarrow> nat option" where
  "hex_val c =
     (if c \<in> set ''0123456789'' then Some (of_char c - 48)
      else if c \<in> set ''abcdef'' then Some (of_char c - 87)
      else if c \<in> set ''ABCDEF'' then Some (of_char c - 55)
      else None)"

fun unquote :: "string \<Rightarrow> string" where
  "unquote [] = []"
| "unquote [c] = [c]"
| "unquote [c, d] = [c, d]"
| "unquote (c # h # l # cs) =
     (case (c = CHR ''%'', hex_val h, hex_val l) of
        (True, Some a, Some b) \<Rightarrow> char_of (16 * a + b) # unquote cs
      | _ \<Rightarrow> c # unquote (h # l # cs))"

definition unquote_plus :: "string \<Rightarrow> string" where
  "unquote_plus s = unquote (map (\<lambda>c. if c = CHR ''+'' then CHR '' '' else c) s)"

definition hex_digit :: "nat \<Rightarrow> char" where
  "hex_digit n = ''0123456789ABCDEF'' ! n"

definition quote_plus_char :: "char \<Rightarrow> string" where
  "quote_plus_char c =
     (if c \<in> SAFE_class \<or> c = CHR ''~'' then [c]
      else if c = CHR '' '' then ''+''
      else [CHR ''%'', hex_digit (of_char c div 16), hex_digit (of_char c mod 16)])"

definition quote_plus :: "string \<Rightarrow> string" where
  "quote_plus s = concat (map quote_plus_char s)"

definition before_char :: "char \<Rightarrow> string \<Rightarrow> string" where
  "before_char c s = takeWhile (\<lambda>d. d \<noteq> c) s"

definition after_char :: "char \<Rightarrow> string \<Rightarrow> string" where
  "after_char c s = drop 1 (dropWhile (\<lambda>d. d \<noteq> c) s)"

fun split_char_from :: "char \<Rightarrow> string \<Rightarrow> string \<Rightarrow> string list" where
  "split_char_from c cur [] = [cur]"
| "split_char_from c cur (d # ds) =
     (if d = c then cur # split_char_from c [] ds else split_char_from c (cur @ [d]) ds)"

definition split_char :: "char \<Rightarrow> string \<Rightarrow> string list" where
  "split_char c s = split_char_from c [] s"

definition plain_urlparse :: "string \<Rightarrow> parse_result" where
  "plain_urlparse url =
     (let sch = before_char (CHR '':'') url;
          rest = drop 2 (after_char (CHR '':'') url);
          frag = after_char (CHR ''#'') rest;
          rest = before_char (CHR ''#'') rest;
          qry = after_char (CHR ''?'') rest;
          rest = before_char (CHR ''?'') rest
      in \<lparr>scheme = map lower_char sch, netloc = before_char (CHR ''/'') rest,
          path = dropWhile (\<lambda>d. d \<noteq> CHR ''/'') rest, params = [],
          query = qry, fragment = frag\<rparr>)"

definition plain_parse_qsl :: "string \<Rightarrow> (string \<times> string) list" where
  "plain_parse_qsl qs =
     map (\<lambda>nv. (unquote_plus (before_char (CHR ''='') nv),
                 unquote_plus (after_char (CHR ''='') nv)))
       (filter (\<lambda>nv. after_char (CHR ''='') nv \<noteq> []) (split_char (CHR ''&'') qs))"

fun plain_urlencode :: "(string \<times> string) list \<Rightarrow> string" where
  "plain_urlencode [] = []"
| "plain_urlencode [(k, v)] = quote_plus k @ ''='' @ quote_plus v"
| "plain_urlencode ((k, v) # kvs) =
     quote_plus k @ ''='' @ quote_plus v @ ''&'' @ plain_urlencode kvs"

definition plain_urlunparse :: "parse_result \<Rightarrow> string" where
  "plain_urlunparse r =
     scheme r @ ''://'' @ netloc r @ path r
       @ (if params r = [] then [] else '';'' @ params r)
       @ (if query r = [] then [] else ''?'' @ query r)
       @ (if fragment r = [] then [] else ''#'' @ fragment r)"

definition plain_urllib :: urllib where
  "plain_urllib = \<lparr>urlparse = plain_urlparse, parse_qsl = plain_parse_qsl,
                    urlencode = plain_urlencode, urlunparse = plain_urlunparse\<rparr>"

text \<open>The values of the parameter \<open>k\<close> in a list of query fields, in order.\<close>

definition vals_of :: "string \<Rightarrow> (string \<times> string) list \<Rightarrow> string list" where
  "vals_of k pairs = map snd (filter (\<lambda>p. fst p = k) pairs)"

section \<open>The run (main)\<close>

text \<open>
  Lines 98-237, from the resolved URL list on. The browser, the clock, the random
  number generator and the file system are outside the program; the model makes them
  explicit.
  \<^item> Everything the run does to the outside is recorded, in order, in a trace of
    events: what it prints, its sleeps, its calls to the browser driver, the files it
    writes.
  \<^item> The behaviour of the outside is a parameter \<open>w\<close>, a script: \<open>raises w n\<close> is the
    exception the \<open>n\<close>-th driver call of the run raises, if any; \<open>found w n\<close> the
    number of elements \<open>find_elements\<close> returns when it is the \<open>n\<close>-th call;
    \<open>measured w n\<close> the scroll height \<open>execute_script\<close> returns; \<open>printed w n\<close> the
    document \<open>Page.printToPDF\<close> returns (its pages, as \<open>PdfReader\<close> will read them
    back); \<open>random w i\<close> the sample \<open>random.uniform\<close> draws for the \<open>i\<close>-th URL.
  \<^item> \<open>time.time()\<close> is the field \<open>clock\<close> of the state; \<open>time.sleep(d)\<close> advances
    it by \<open>d\<close> and raises \<open>ValueError\<close> for a negative \<open>d\<close>; driver calls take no
    time. Errors of the file system are not modelled.
  An exception of class \<open>WebDriverException\<close> (or a subclass) is the value
  \<open>WebDriverException\<close>; the other values of \<open>exn\<close> are exceptions of other
  subclasses of \<open>Exception\<close>.
\<close>

datatype message =
    Printing nat nat string
  | AttemptFailed nat exn int
  | CoolingDown int
  | CaptchaDetected
  | CaptchaCleared
  | CaptchaTimedOut
  | NoUrls
  | NoPdfs
  | Done string
  | IndividualPdfs string

datatype selector = ById string | ByCssSelector string

datatype event =
    Print message
  | Sleep real
  | Mkdir string
  | StartBrowser
  | Get string
  | FindElements selector
  | SetEmulatedMedia
  | ExecuteScript
  | PrintToPDF real real real
  | WriteBytes string
  | Quit
  | WriteMerged string

record 'p world =
  raises :: "nat \<Rightarrow> exn option"
  found :: "nat \<Rightarrow> nat"
  measured :: "nat \<Rightarrow> real"
  printed :: "nat \<Rightarrow> 'p list"
  random :: "nat \<Rightarrow> real"

record 'p state =
  clock :: real
  calls :: nat
  trace :: "event list"
  files :: "'p pdf_files"
  pdf_paths :: "path list"

record args =
  out_dir :: string
  merged :: string
  letter :: bool
  margin :: real
  wait_ms :: int
  headful :: bool
  rest_every :: int
  cooldown_sec :: int
  min_wait :: real
  max_wait :: real
  captcha_timeout :: int

text \<open>
  A statement that may raise is a function from the state to a result (the exception or
  the value) and the new state; \<open>bind_act\<close> is sequencing: the rest is skipped when
  the first part raises.
\<close>

type_synonym ('a, 'p) action = "'p state \<Rightarrow> (exn + 'a) \<times> 'p state"

definition return_act :: "'a \<Rightarrow> ('a, 'p) action" where
  "return_act x st = (Inr x, st)"

definition raise_act :: "exn \<Rightarrow> ('a, 'p) action" where
  "raise_act e st = (Inl e, st)"

definition bind_act :: "('a, 'p) action \<Rightarrow> ('a \<Rightarrow> ('b, 'p) action) \<Rightarrow> ('b, 'p) action" where
  "bind_act m f st = (case m st of (Inl e, st') \<Rightarrow> (Inl e, st') | (Inr x, st') \<Rightarrow> f x st')"

definition log_event :: "event \<Rightarrow> 'p state \<Rightarrow> 'p state" where
  "log_event ev st = st\<lparr>trace := trace st @ [ev]\<rparr>"

definition print_msg :: "message \<Rightarrow> (unit, 'p) action" where
  "print_msg m st = (Inr (), log_event (Print m) st)"

definition sleep :: "real \<Rightarrow> (unit, 'p) action" where
  "sleep d st =
     (if d < 0 then (Inl ValueError, st)
      else (Inr (), log_event (Sleep d) (st\<lparr>clock := clock st + d\<rparr>)))"

definition driver_call :: "'p world \<Rightarrow> event \<Rightarrow> (nat, 'p) action" where
  "driver_call w ev st =
     (let n = calls st; st' = log_event ev (st\<lparr>calls := Suc n\<rparr>)
      in case raises w n of Some e \<Rightarrow> (Inl e, st') | None \<Rightarrow> (Inr n, st'))"

definition write_bytes :: "path \<Rightarrow> 'p list \<Rightarrow> (unit, 'p) action" where
  "write_bytes p pdf st = (Inr (), log_event (WriteBytes p) (st\<lparr>files := (files st)(p \<mapsto> pdf)\<rparr>))"

text \<open>
  Lines 161-163 and 171-173: \<open>find_elements(..) or find_elements(..) or
  find_elements(..)\<close>; a non-empty list is true and ends the evaluation.
\<close>

definition find_elements :: "'p world \<Rightarrow> selector \<Rightarrow> (bool, 'p) action" where
  "find_elements w sel = bind_act (driver_call w (FindElements sel)) (\<lambda>n. return_act (0 < found w n))"

definition captcha_markers :: "'p world \<Rightarrow> (bool, 'p) action" where
  "captcha_markers w =
     bind_act (find_elements w (ById ''gs_captcha_ccl'')) (\<lambda>a.
       if a then return_act True
       else bind_act (find_elements w (ById ''recaptcha'')) (\<lambda>b.
         if b then return_act True
         else find_elements w (ByCssSelector ''form[action*='sorry']'')))"

text \<open>
  \<open>steps R act\<close>: the relation \<open>R\<close> holds between the state before and the state
  after \<open>act\<close>, whatever the result. The probes leave the clock alone, which is what
  makes the polling loop terminate.
\<close>

definition steps :: "('p state \<Rightarrow> 'p state \<Rightarrow> bool) \<Rightarrow> ('a, 'p) action \<Rightarrow> bool" where
  "steps R act = (\<forall>st. R st (snd (act st)))"

definition same_clock :: "'p state \<Rightarrow> 'p state \<Rightarrow> bool" where
  "same_clock st st' = (clock st' = clock st)"

lemma stepsD: "steps R act \<Longrightarrow> act st = (r, st') \<Longrightarrow> R st st'"
  unfolding steps_def by (metis snd_conv)

lemma steps_return: "reflp R \<Longrightarrow> steps R (return_act x)"
  by (simp add: steps_def return_act_def reflp_def)

lemma steps_raise: "reflp R \<Longrightarrow> steps R (raise_act e)"
  by (simp add: steps_def raise_act_def reflp_def)

lemma steps_bind:
  assumes "transp R" and "steps R m" and "\<And>x. steps R (f x)"
  shows "steps R (bind_act m f)"
  unfolding steps_def
proof
  fix st
  obtain r st1 where m: "m st = (r, st1)" by (cases "m st")
  have 1: "R st st1" using assms(2) m by (rule stepsD)
  show "R st (snd (bind_act m f st))"
  proof (cases r)
    case (Inl e)
    then show ?thesis using 1 by (simp add: bind_act_def m)
  next
    case (Inr x)
    obtain r2 st2 where f: "f x st1 = (r2, st2)" by (cases "f x st1")
    have "R st1 st2" using assms(3) f by (rule stepsD)
    then have "R st st2" using assms(1) 1 by (meson transpD)
    then show ?thesis by (simp add: bind_act_def m Inr f)
  qed
qed

lemma steps_if: "steps R a \<Longrightarrow> steps R b \<Longrightarrow> steps R (if c then a else b)"
  by simp

lemma same_clock_refl: "reflp same_clock" and same_clock_trans: "transp same_clock"
  by (simp_all add: reflp_def transp_def same_clock_def)

lemma clock_log_event [simp]: "clock (log_event ev st) = clock st"
  by (simp add: log_event_def)

lemma driver_call_same_clock: "steps same_clock (driver_call w ev)"
  by (simp add: steps_def same_clock_def driver_call_def Let_def split: option.splits)

lemma find_elements_same_clock: "steps same_clock (find_elements w sel)"
  unfolding find_elements_def
  by (intro steps_bind steps_return same_clock_refl same_clock_trans driver_call_same_clock)

lemma captcha_markers_same_clock: "steps same_clock (captcha_markers w)"
  unfolding captcha_markers_def
  by (intro steps_bind steps_if steps_return same_clock_refl same_clock_trans
      find_elements_same_clock)

text \<open>
  Lines 169-178, the loop \<open>while time.time() < end\<close>: sleep 3 seconds, probe again,
  return \<open>True\<close> when the markers are gone; after the loop, \<open>True\<close> as well
  ("continuing anyway").
\<close>

function captcha_poll :: "'p world \<Rightarrow> real \<Rightarrow> (bool, 'p) action" where
  "captcha_poll w end_t st =
     (if clock st < end_t then
        (case bind_act (sleep 3) (\<lambda>_. captcha_markers w) st of
           (Inl e, st') \<Rightarrow> (Inl e, st')
         | (Inr still_there, st') \<Rightarrow>
             if \<not> still_there then bind_act (print_msg CaptchaCleared) (\<lambda>_. return_act True) st'
             else captcha_poll w end_t st')
      else bind_act (print_msg CaptchaTimedOut) (\<lambda>_. return_act True) st)"
  by pat_completeness auto
termination
proof (relation "measure (\<lambda>(w, end_t, st). nat \<lceil>end_t - clock st\<rceil>)", goal_cases)
  case 1
  then show ?case by simp
next
  case (2 w end_t st x1 st' still_there)
  have "captcha_markers w (log_event (Sleep 3) (st\<lparr>clock := clock st + 3\<rparr>)) = (Inr still_there, st')"
    using 2 by (simp add: bind_act_def sleep_def)
  from stepsD [OF captcha_markers_same_clock this]
  have "clock st' = clock st + 3"
    by (simp add: same_clock_def)
  moreover have "0 < end_t - clock st" using 2(1) by simp
  ultimately show ?case by simp linarith
qed

declare captcha_poll.simps [simp del]

text \<open>
  Lines 154-181. \<open>maybe_wait_for_captcha_try\<close> is the body of the \<open>try\<close>
  (lines 160-178), ending in \<open>return False\<close> of line 181 when no marker is present;
  \<open>maybe_wait_for_captcha\<close> adds the handler \<open>except Exception: pass\<close> followed by
  \<open>return False\<close>.
\<close>

definition maybe_wait_for_captcha_try :: "'p world \<Rightarrow> int \<Rightarrow> (bool, 'p) action" where
  "maybe_wait_for_captcha_try w timeout_s =
     bind_act (captcha_markers w) (\<lambda>captcha_present.
       if captcha_present then
         bind_act (print_msg CaptchaDetected) (\<lambda>_ st.
           captcha_poll w (clock st + of_int timeout_s) st)
       else return_act False)"

definition maybe_wait_for_captcha :: "'p world \<Rightarrow> int \<Rightarrow> 'p state \<Rightarrow> bool \<times> 'p state" where
  "maybe_wait_for_captcha w timeout_s st =
     (case maybe_wait_for_captcha_try w timeout_s st of
        (Inl e, st') \<Rightarrow> (False, st')
      | (Inr r, st') \<Rightarrow> (r, st'))"

text \<open>
  Lines 49-74. The minimum and maximum heights are the defaults 1 and 200 of
  \<open>compute_full_height_inches\<close>.
\<close>

definition print_one_page_pdf ::
  "'p world \<Rightarrow> string \<Rightarrow> path \<Rightarrow> real \<Rightarrow> real \<Rightarrow> int \<Rightarrow> (unit, 'p) action" where
  "print_one_page_pdf w url out_path width_in margin_in wait_ms_arg =
     bind_act (driver_call w (Get url)) (\<lambda>_.
     bind_act (sleep (of_int wait_ms_arg / 1000)) (\<lambda>_.
     bind_act (driver_call w SetEmulatedMedia) (\<lambda>_.
     bind_act (driver_call w ExecuteScript) (\<lambda>n.
       let paper_height_in = compute_full_height_inches (measured w n) 1 200 margin_in
       in bind_act (driver_call w (PrintToPDF width_in paper_height_in margin_in)) (\<lambda>k.
            write_bytes out_path (printed w k))))))"

text \<open>
  Lines 200-216, the body of the \<open>try\<close> of one attempt: \<open>capture\<close> is lines 200-215,
  \<open>captcha_step\<close> the \<open>if\<close> of lines 202-204, and \<open>attempt\<close> adds
  \<open>pdf_paths.append(out_path)\<close> of line 216.
\<close>

definition append_pdf_path :: "path \<Rightarrow> (unit, 'p) action" where
  "append_pdf_path out_path st = (Inr (), st\<lparr>pdf_paths := pdf_paths st @ [out_path]\<rparr>)"

definition captcha_step :: "'p world \<Rightarrow> args \<Rightarrow> string \<Rightarrow> (unit, 'p) action" where
  "captcha_step w a url st =
     (if headful a then
        (case maybe_wait_for_captcha w (captcha_timeout a) st of
           (True, st') \<Rightarrow> bind_act (driver_call w (Get url)) (\<lambda>_. return_act ()) st'
         | (False, st') \<Rightarrow> (Inr (), st'))
      else (Inr (), st))"

definition capture :: "'p world \<Rightarrow> args \<Rightarrow> string \<Rightarrow> path \<Rightarrow> real \<Rightarrow> (unit, 'p) action" where
  "capture w a url out_path width =
     bind_act (driver_call w (Get url)) (\<lambda>_.
     bind_act (captcha_step w a url) (\<lambda>_.
     bind_act (sleep (max 1 (of_int (wait_ms a) / 1000))) (\<lambda>_.
     print_one_page_pdf w url out_path width (margin a) 0)))"

definition attempt :: "'p world \<Rightarrow> args \<Rightarrow> string \<Rightarrow> path \<Rightarrow> real \<Rightarrow> (unit, 'p) action" where
  "attempt w a url out_path width =
     bind_act (capture w a url out_path width) (\<lambda>_. append_pdf_path out_path)"

text \<open>
  Lines 196-221. \<open>back_off\<close> is the handler of lines 219-220; \<open>retry_loop\<close> is the
  \<open>while attempts < 3\<close> loop, started with \<open>attempts = 0\<close> and \<open>backoff = 3\<close>. It
  returns the value of \<open>attempts\<close> when the loop ends. Only \<open>WebDriverException\<close> is
  caught.
\<close>

definition back_off :: "nat \<Rightarrow> exn \<Rightarrow> int \<Rightarrow> (unit, 'p) action" where
  "back_off attempts e backoff =
     bind_act (print_msg (AttemptFailed attempts e backoff)) (\<lambda>_. sleep (of_int backoff))"

function retry_loop ::
  "'p world \<Rightarrow> args \<Rightarrow> string \<Rightarrow> path \<Rightarrow> real \<Rightarrow> nat \<Rightarrow> int \<Rightarrow> (nat, 'p) action" where
  "retry_loop w a url out_path width attempts backoff st =
     (if attempts < 3 then
        (case attempt w a url out_path width st of
           (Inr _, st') \<Rightarrow> (Inr (attempts + 1), st')
         | (Inl e, st') \<Rightarrow>
             if e = WebDriverException then
               (case back_off (attempts + 1) e backoff st' of
                  (Inl e', st'') \<Rightarrow> (Inl e', st'')
                | (Inr _, st'') \<Rightarrow> retry_loop w a url out_path width (attempts + 1) (backoff * 2) st'')
             else (Inl e, st'))
      else (Inr attempts, st))"
  by pat_completeness auto
termination
  by (relation "measure (\<lambda>(w, a, url, out_path, width, attempts, backoff, st). 3 - attempts)") auto

declare retry_loop.simps [simp del]

text \<open>
  Lines 224-226: \<open>i % args.rest_every\<close> raises \<open>ZeroDivisionError\<close> when
  \<open>rest_every\<close> is 0.
\<close>

definition cooldown :: "args \<Rightarrow> nat \<Rightarrow> nat \<Rightarrow> (unit, 'p) action" where
  "cooldown a i n =
     (if rest_every a = 0 then raise_act ZeroDivisionError
      else if int i mod rest_every a = 0 \<and> i < n then
        bind_act (print_msg (CoolingDown (cooldown_sec a))) (\<lambda>_. sleep (of_int (cooldown_sec a)))
      else return_act ())"

text \<open>
  Lines 186-226: one iteration of the \<open>for\<close> loop, and the loop over the URLs with
  \<open>i\<close> counting from the value given (1 in \<open>main\<close>); \<open>n\<close> is \<open>len(urls)\<close>.
\<close>

definition process_url :: "'p world \<Rightarrow> args \<Rightarrow> real \<Rightarrow> nat \<Rightarrow> nat \<Rightarrow> string \<Rightarrow> (unit, 'p) action" where
  "process_url w a width n i url =
     (let name = page_name i url;
          out_path = out_dir a @ ''/'' @ name
      in bind_act (print_msg (Printing i n name)) (\<lambda>_.
         bind_act (sleep (min_wait a + (max_wait a - min_wait a) * random w i)) (\<lambda>_.
         bind_act (retry_loop w a url out_path width 0 3) (\<lambda>_.
         cooldown a i n))))"

fun process_urls :: "'p world \<Rightarrow> args \<Rightarrow> real \<Rightarrow> nat \<Rightarrow> nat \<Rightarrow> string list \<Rightarrow> (unit, 'p) action" where
  "process_urls w a width n i [] = return_act ()"
| "process_urls w a width n i (url # urls) =
     bind_act (process_url w a width n i url) (\<lambda>_. process_urls w a width n (Suc i) urls)"

text \<open>
  How the run ends: \<open>sys.exit(status)\<close>, an exception that nothing catches, or the
  end of \<open>main\<close>. \<open>finish\<close> is lines 230-237; \<open>main\<close> lines 131-237, with
  \<open>driver.quit()\<close> in the \<open>finally\<close> clause: it runs whether the loop raised or not,
  and an exception of its own replaces the loop's.
\<close>

datatype outcome = Exit int | Raised exn | Completed

definition finish :: "args \<Rightarrow> 'p state \<Rightarrow> outcome \<times> 'p state" where
  "finish a st =
     (if pdf_paths st = [] then (Exit 2, log_event (Print NoPdfs) st)
      else
        (case merge_pdfs (files st) (pdf_paths st) (merged a) of
           Inl e \<Rightarrow> (Raised e, st)
         | Inr fs \<Rightarrow>
             (Completed,
              log_event (Print (IndividualPdfs (out_dir a)))
                (log_event (Print (Done (merged a)))
                  (log_event (WriteMerged (merged a)) (st\<lparr>files := fs\<rparr>))))))"

definition main :: "'p world \<Rightarrow> args \<Rightarrow> string list \<Rightarrow> 'p state \<Rightarrow> outcome \<times> 'p state" where
  "main w a urls st =
     (if urls = [] then (Exit 1, log_event (Print NoUrls) st)
      else
        (case driver_call w StartBrowser (log_event (Mkdir (out_dir a)) st) of
           (Inl e, st0) \<Rightarrow> (Raised e, st0)
         | (Inr _, st0) \<Rightarrow>
             (let width = (if letter a then 8.5 else 8.27);
                  (r, st1) = process_urls w a width (length urls) 1 urls (st0\<lparr>pdf_paths := []\<rparr>);
                  (q, st2) = driver_call w Quit st1
              in case q of
                   Inl e \<Rightarrow> (Raised e, st2)
                 | Inr _ \<Rightarrow> (case r of Inl e \<Rightarrow> (Raised e, st2) | Inr _ \<Rightarrow> finish a st2))))"

text \<open>
  A sample outside for concrete runs: nothing raises, no marker is found, every page is
  960 pixels high, the \<open>n\<close>-th call prints the one-page document \<open>[n]\<close>; the
  default arguments of the command line; an empty initial state. \<open>raising script\<close>
  is the same outside except that the driver calls listed in \<open>script\<close> raise.
\<close>

definition world0 :: "nat world" where
  "world0 = \<lparr>raises = (\<lambda>n. None), found = (\<lambda>n. 0), measured = (\<lambda>n. 960),
             printed = (\<lambda>n. [n]), random = (\<lambda>i. 1 / 2)\<rparr>"

definition args0 :: args where
  "args0 = \<lparr>out_dir = ''pdf_pages'', merged = ''merged.pdf'', letter = False, margin = 0.4,
            wait_ms = 1500, headful = False, rest_every = 10, cooldown_sec = 1,
            min_wait = 2, max_wait = 5, captcha_timeout = 600\<rparr>"

definition state0 :: "nat state" where
  "state0 = \<lparr>clock = 0, calls = 0, trace = [], files = Map.empty, pdf_paths = []\<rparr>"

definition raising :: "(nat \<times> exn) list \<Rightarrow> nat world" where
  "raising script = world0\<lparr>raises := map_of script\<rparr>"

text \<open>The state after the handler of lines 219-220 has printed and slept.\<close>

definition backed_off :: "nat \<Rightarrow> int \<Rightarrow> 'p state \<Rightarrow> 'p state" where
  "backed_off k b st =
     st\<lparr>clock := clock st + of_int b,
        trace := trace st @ [Print (AttemptFailed k WebDriverException b), Sleep (of_int b)]\<rparr>"

text \<open>
  The retry loop written out: a first attempt; if it fails with a
  \<open>WebDriverException\<close>, a back-off of 3 seconds and a second attempt; if that
  fails so, a back-off of 6 seconds and a third; if that fails so, a back-off of 12
  seconds and the end. Any other exception ends it at once.
\<close>

definition three_attempts ::
  "'p world \<Rightarrow> args \<Rightarrow> string \<Rightarrow> path \<Rightarrow> real \<Rightarrow> (nat, 'p) action" where
  "three_attempts w a url out_path width st =
     (case attempt w a url out_path width st of
        (Inr _, s1) \<Rightarrow> (Inr 1, s1)
      | (Inl e1, s1) \<Rightarrow>
          if e1 \<noteq> WebDriverException then (Inl e1, s1)
          else
            (case attempt w a url out_path width (backed_off 1 3 s1) of
               (Inr _, s2) \<Rightarrow> (Inr 2, s2)
             | (Inl e2, s2) \<Rightarrow>
                 if e2 \<noteq> WebDriverException then (Inl e2, s2)
                 else
                   (case attempt w a url out_path width (backed_off 2 6 s2) of
                      (Inr _, s3) \<Rightarrow> (Inr 3, s3)
                    | (Inl e3, s3) \<Rightarrow>
                        if e3 \<noteq> WebDriverException then (Inl e3, s3)
                        else (Inr 3, backed_off 3 12 s3))))"

text \<open>
  Two relations between the state before and the state after a part of the run.
  \<open>quiet\<close>: the list of captured pages is unchanged, no file is removed, the call
  counter and the clock do not go back, and the trace grows by events that are not
  \<open>Quit\<close>. \<open>progress\<close>: if every captured page had its file before, then so after;
  and the trace grows by events that are not \<open>Quit\<close>.
\<close>

definition quiet :: "'p state \<Rightarrow> 'p state \<Rightarrow> bool" where
  "quiet st st' \<longleftrightarrow>
     pdf_paths st' = pdf_paths st \<and> dom (files st) \<subseteq> dom (files st')
     \<and> calls st \<le> calls st' \<and> clock st \<le> clock st'
     \<and> (\<exists>evs. trace st' = trace st @ evs \<and> Quit \<notin> set evs)"

definition progress :: "'p state \<Rightarrow> 'p state \<Rightarrow> bool" where
  "progress st st' \<longleftrightarrow>
     (set (pdf_paths st) \<subseteq> dom (files st) \<longrightarrow> set (pdf_paths st') \<subseteq> dom (files st'))
     \<and> (\<exists>evs. trace st' = trace st @ evs \<and> Quit \<notin> set evs)"

text \<open>\<open>same_files\<close>: no file is written.\<close>

definition same_files :: "'p state \<Rightarrow> 'p state \<Rightarrow> bool" where
  "same_files st st' = (files st' = files st)"

text \<open>
  What the interstitial wait may add to the trace: its probes, its sleeps of 3 seconds
  and its three messages. \<open>polling\<close>: the trace grows by such events only.
\<close>

fun wait_event :: "event \<Rightarrow> bool" where
  "wait_event (Sleep d) = (d = 3)"
| "wait_event (FindElements sel) = True"
| "wait_event (Print m) = (m = CaptchaDetected \<or> m = CaptchaCleared \<or> m = CaptchaTimedOut)"
| "wait_event ev = False"

definition polling :: "'p state \<Rightarrow> 'p state \<Rightarrow> bool" where
  "polling st st' \<longleftrightarrow> (\<exists>evs. trace st' = trace st @ evs \<and> list_all wait_event evs)"






section \<open>Properties of the paper height\<close>

lemma compute_full_height_inches_clamp:
  "min_in \<le> max_in \<Longrightarrow>
     compute_full_height_inches s min_in max_in m =
       clamp_to_interval min_in max_in (s / 96 + 2 * m)"
  by (simp add: compute_full_height_inches_def clamp_to_interval_def Let_def max_def min_def)

lemma compute_full_height_inches_mono:
  "s \<le> s' \<Longrightarrow>
     compute_full_height_inches s min_in max_in m \<le> compute_full_height_inches s' min_in max_in m"
  by (simp add: compute_full_height_inches_def Let_def max_def min_def divide_right_mono)

text \<open>
  C2. For every measured scroll height \<open>s\<close> and margin \<open>m\<close>, and bounds with
  \<open>min_in \<le> max_in\<close>, the computed paper height is \<open>s / 96 + 2 * m\<close> clamped to
  the closed interval from \<open>min_in\<close> to \<open>max_in\<close>; it lies in that interval; it
  does not decrease when the scroll height grows; with the defaults (minimum 1,
  maximum 200, margin 0.4) a height of 0 gives the minimum and a height of 50000 the
  maximum.
\<close>

theorem compute_full_height_inches_spec:
  assumes "min_in \<le> max_in"
  shows "compute_full_height_inches s min_in max_in m =
           clamp_to_interval min_in max_in (s / 96 + 2 * m)
         \<and> min_in \<le> compute_full_height_inches s min_in max_in m
         \<and> compute_full_height_inches s min_in max_in m \<le> max_in
         \<and> (s \<le> s' \<longrightarrow>
               compute_full_height_inches s min_in max_in m
                 \<le> compute_full_height_inches s' min_in max_in m)
         \<and> compute_full_height_inches 0 1 200 0.4 = 1
         \<and> compute_full_height_inches 50000 1 200 0.4 = 200"
proof -
  have "compute_full_height_inches s min_in max_in m =
          clamp_to_interval min_in max_in (s / 96 + 2 * m)"
    using assms by (rule compute_full_height_inches_clamp)
  moreover have "min_in \<le> compute_full_height_inches s min_in max_in m"
    by (simp add: compute_full_height_inches_def Let_def)
  moreover have "compute_full_height_inches s min_in max_in m \<le> max_in"
    using assms by (simp add: compute_full_height_inches_def Let_def)
  moreover have "s \<le> s' \<longrightarrow>
          compute_full_height_inches s min_in max_in m
            \<le> compute_full_height_inches s' min_in max_in m"
    by (simp add: compute_full_height_inches_mono)
  moreover have "compute_full_height_inches 0 1 200 0.4 = 1"
    by (simp add: compute_full_height_inches_def Let_def)
  moreover have "compute_full_height_inches 50000 1 200 0.4 = 200"
    by (simp add: compute_full_height_inches_def Let_def)
  ultimately show ?thesis by blast
qed

theorem compute_full_height_inches_spec_witness:
  "(1::real) \<le> 200 \<and> (960::real) \<le> 1920
   \<and> compute_full_height_inches 960 1 200 0.4 = clamp_to_interval 1 200 (960 / 96 + 2 * 0.4)
   \<and> compute_full_height_inches 960 1 200 0.4 = 10.8
   \<and> compute_full_height_inches 1920 1 200 0.4 = 20.8
   \<and> compute_full_height_inches 960 1 200 0.4 \<le> compute_full_height_inches 1920 1 200 0.4"
proof -
  have h: "(1::real) \<le> 200" by simp
  note inst = compute_full_height_inches_spec [OF h, of 960 "0.4" 1920]
  have "compute_full_height_inches 960 1 200 0.4 = clamp_to_interval 1 200 (960 / 96 + 2 * 0.4)"
    using inst by blast
  moreover have "compute_full_height_inches 960 1 200 0.4
                   \<le> compute_full_height_inches 1920 1 200 0.4"
    using inst by simp
  moreover have "compute_full_height_inches 960 1 200 0.4 = 10.8"
    by (simp add: compute_full_height_inches_def Let_def)
  moreover have "compute_full_height_inches 1920 1 200 0.4 = 20.8"
    by (simp add: compute_full_height_inches_def Let_def)
  ultimately show ?thesis by simp
qed

section \<open>Properties of merging\<close>

lemma add_pages_append: "add_pages writer pages = writer @ pages"
  by (induction pages arbitrary: writer) simp_all

lemma merge_inputs_concat:
  "map fs inputs = map Some docs \<Longrightarrow> merge_inputs fs inputs writer = Inr (writer @ concat docs)"
proof (induction inputs arbitrary: docs writer)
  case Nil
  then show ?case by simp
next
  case (Cons p inputs)
  then obtain d ds where docs: "docs = d # ds" and p: "fs p = Some d"
    and rest: "map fs inputs = map Some ds"
    by (cases docs) auto
  show ?case
    using Cons.IH [OF rest] by (simp add: docs p add_pages_append)
qed

text \<open>
  C7. When the input paths hold the documents \<open>docs\<close> (in the order of the list),
  the merge writes to the output path the concatenation of their page lists in that
  order, whatever the number of pages of each document; the number of pages written
  is the sum of the inputs' page counts.
\<close>

theorem merge_pdfs_concat:
  assumes "map fs inputs = map Some docs"
  shows "merge_pdfs fs inputs output = Inr (fs(output \<mapsto> concat docs))
         \<and> length (concat docs) = sum_list (map length docs)"
  using merge_inputs_concat [OF assms, of "[]"]
  by (simp add: merge_pdfs_def length_concat)

theorem merge_pdfs_concat_witness:
  "merge_pdfs [''a.pdf'' \<mapsto> [1::nat, 2], ''b.pdf'' \<mapsto> [], ''c.pdf'' \<mapsto> [3]]
       [''a.pdf'', ''b.pdf'', ''c.pdf'', ''a.pdf''] ''m.pdf''
     = Inr ([''a.pdf'' \<mapsto> [1, 2], ''b.pdf'' \<mapsto> [], ''c.pdf'' \<mapsto> [3],
             ''m.pdf'' \<mapsto> [1, 2, 3, 1, 2]])
   \<and> length [1::nat, 2, 3, 1, 2] = 2 + 0 + 1 + 2"
  using merge_pdfs_concat [of "[''a.pdf'' \<mapsto> [1::nat, 2], ''b.pdf'' \<mapsto> [], ''c.pdf'' \<mapsto> [3]]"
      "[''a.pdf'', ''b.pdf'', ''c.pdf'', ''a.pdf'']" "[[1, 2], [], [3], [1, 2]]" "''m.pdf''"]
  by simp

section \<open>Properties of the file names\<close>

lemma split_from_nonempty: "split_from sep cur s \<noteq> []"
  by (induction sep cur s rule: split_from.induct) auto

lemma SAFE_sub_safe: "set repl \<subseteq> SAFE_class \<Longrightarrow> set (SAFE_sub repl s) \<subseteq> SAFE_class"
  by (induction repl s rule: SAFE_sub.induct) auto

lemma SAFE_sub_length: "length repl \<le> 1 \<Longrightarrow> length (SAFE_sub repl s) \<le> length s"
proof (induction repl s rule: SAFE_sub.induct)
  case (1 repl)
  then show ?case by simp
next
  case (2 repl c cs)
  have "length (dropWhile (\<lambda>d. d \<notin> SAFE_class) cs) \<le> length cs"
    by (rule length_dropWhile_le)
  with 2 show ?case by auto
qed

lemma safe_name_safe: "set (safe_name url) \<subseteq> SAFE_class"
proof -
  have "set ''_'' \<subseteq> SAFE_class" "set ''page'' \<subseteq> SAFE_class"
    by (simp_all add: SAFE_class_def)
  then show ?thesis
    using SAFE_sub_safe [of "''_''"] by (simp add: safe_name_def Let_def)
qed

lemma safe_name_length: "length (safe_name url) \<le> 150"
proof -
  have "length (SAFE_sub ''_'' (take 150 b)) \<le> 150" for b
    using SAFE_sub_length [of "''_''" "take 150 b"] by simp
  then show ?thesis
    by (simp add: safe_name_def Let_def)
qed

lemma safe_name_nonempty: "safe_name url \<noteq> []"
  by (simp add: safe_name_def Let_def)


lemma lt_10_cases: "d < 10 \<Longrightarrow> d \<in> {0, 1, 2, 3, 4, 5, 6, 7, 8, 9 :: nat}"
  by auto

lemma digit_char_digit: "d < 10 \<Longrightarrow> digit_char d \<in> set ''0123456789''"
  using lt_10_cases [of d] by (auto simp: digit_char_def)

lemma of_char_digit_char: "d < 10 \<Longrightarrow> of_char (digit_char d) = 48 + d"
  using lt_10_cases [of d] by (auto simp: digit_char_def)

lemma str_nat_digits: "set (str_nat n) \<subseteq> set ''0123456789''"
proof (induction n rule: str_nat.induct)
  case (1 n)
  show ?case
  proof (cases "n < 10")
    case True
    then show ?thesis using digit_char_digit [of n] by (simp add: str_nat.simps [of n])
  next
    case False
    then show ?thesis
      using 1 digit_char_digit [of "n mod 10"] by (simp add: str_nat.simps [of n])
  qed
qed

lemma foldl_digits_snoc:
  "foldl (\<lambda>a c. 10 * a + (of_char c - 48)) 0 (s @ [c])
     = 10 * foldl (\<lambda>a c. 10 * a + (of_char c - 48)) 0 s + (of_char c - (48::nat))"
  by simp

lemma int_of_digits_str_nat: "int_of_digits (str_nat n) = n"
proof (induction n rule: str_nat.induct)
  case (1 n)
  show ?case
  proof (cases "n < 10")
    case True
    then show ?thesis
      by (simp add: str_nat.simps [of n] int_of_digits_def of_char_digit_char)
  next
    case False
    then have "int_of_digits (str_nat (n div 10)) = n div 10" using 1 by simp
    then show ?thesis
      using False by (simp add: str_nat.simps [of n] int_of_digits_def of_char_digit_char)
  qed
qed

lemma int_of_digits_zeros:
  "int_of_digits (replicate k (CHR ''0'') @ s) = int_of_digits s"
  by (induction k) (simp_all add: int_of_digits_def)

lemma int_of_digits_format_03d: "int_of_digits (format_03d i) = i"
  by (simp add: format_03d_def Let_def int_of_digits_zeros int_of_digits_str_nat)

lemma str_nat_length_pos: "0 < length (str_nat n)"
  by (subst str_nat.simps) simp

lemma str_nat_length_3: "n < 1000 \<longleftrightarrow> length (str_nat n) \<le> 3"
proof -
  have l1: "length (str_nat k) = 1" if "k < 10" for k
    using that by (simp add: str_nat.simps [of k])
  have s: "length (str_nat k) = Suc (length (str_nat (k div 10)))" if "\<not> k < 10" for k
    using that by (simp add: str_nat.simps [of k])
  show ?thesis
  proof (cases "n < 10")
    case True
    then show ?thesis by (simp add: l1)
  next
    case n10: False
    show ?thesis
    proof (cases "n < 100")
      case True
      then have "n div 10 < 10" by simp
      then show ?thesis using n10 True by (simp add: s l1)
    next
      case n100: False
      then have a: "\<not> n div 10 < 10" by simp
      show ?thesis
      proof (cases "n < 1000")
        case True
        then have "n div 10 div 10 < 10" by simp
        then show ?thesis using n10 a True by (simp add: s l1)
      next
        case False
        then have b: "\<not> n div 10 div 10 < 10" by simp
        have "length (str_nat n) = Suc (Suc (Suc (length (str_nat (n div 10 div 10 div 10)))))"
          using n10 a b by (simp add: s)
        then show ?thesis using False str_nat_length_pos [of "n div 10 div 10 div 10"] by simp
      qed
    qed
  qed
qed

lemma format_03d_length: "length (format_03d i) = max 3 (length (str_nat i))"
  by (simp add: format_03d_def Let_def)

lemma format_03d_digits: "set (format_03d i) \<subseteq> set ''0123456789''"
  using str_nat_digits [of i] by (auto simp: format_03d_def Let_def)

lemma split_from_no_sep:
  "\<not> sublist sep s \<Longrightarrow> split_from sep cur s = [cur @ s]"
proof (induction sep cur s rule: split_from.induct)
  case (1 sep cur)
  then show ?case by simp
next
  case (2 sep cur c cs)
  have np: "\<not> prefix sep (c # cs)"
    using "2.prems" by (auto dest: prefix_imp_sublist)
  have ns: "\<not> sublist sep cs"
    using "2.prems" by (auto simp: sublist_Cons_right)
  show ?case
    using "2.IH"(2) np ns by simp
qed

lemma split_from_at_sep:
  "sep \<noteq> [] \<Longrightarrow> split_from sep cur (sep @ t) = cur # split_from sep [] t"
  by (cases sep) simp_all

lemma split_from_not_at_sep:
  "\<not> prefix sep (c # cs) \<Longrightarrow> split_from sep cur (c # cs) = split_from sep (cur @ [c]) cs"
  by simp

lemma last_split_from_after_sep:
  assumes sep: "sep \<noteq> []"
    and unbordered: "\<And>ys. ys \<noteq> [] \<Longrightarrow> prefix sep (ys @ sep @ t) \<Longrightarrow> prefix sep ys"
  shows "last (split_from sep cur (xs @ sep @ t)) = last (split_from sep [] t)"
proof (induction "length xs" arbitrary: xs cur rule: less_induct)
  case less
  show ?case
  proof (cases xs)
    case Nil
    have "split_from sep cur (xs @ sep @ t) = cur # split_from sep [] t"
      unfolding Nil append_Nil using sep by (rule split_from_at_sep)
    then show ?thesis using split_from_nonempty [of sep "[]" t] by (simp only: last.simps if_False)
  next
    case (Cons x xs')
    show ?thesis
    proof (cases "prefix sep (xs @ sep @ t)")
      case True
      have "xs \<noteq> []" unfolding Cons by (rule list.distinct(2))
      then have "prefix sep xs" using True by (rule unbordered)
      then obtain ys where xs: "xs = sep @ ys" unfolding prefix_def by blast
      have "length ys < length xs" using sep unfolding xs by (cases sep) simp_all
      then have ih: "last (split_from sep [] (ys @ sep @ t)) = last (split_from sep [] t)"
        by (rule less)
      have "split_from sep cur (xs @ sep @ t) = cur # split_from sep [] (ys @ sep @ t)"
        unfolding xs append_assoc using sep by (rule split_from_at_sep)
      then show ?thesis
        using split_from_nonempty [of sep "[]" "ys @ sep @ t"] ih
        by (simp only: last.simps if_False)
    next
      case False
      have "length xs' < length xs" unfolding Cons by simp
      then have ih: "last (split_from sep (cur @ [x]) (xs' @ sep @ t)) = last (split_from sep [] t)"
        by (rule less)
      have "\<not> prefix sep (x # (xs' @ sep @ t))"
        using False unfolding Cons append_Cons .
      then have "split_from sep cur (x # (xs' @ sep @ t)) = split_from sep (cur @ [x]) (xs' @ sep @ t)"
        by (rule split_from_not_at_sep)
      then show ?thesis unfolding Cons append_Cons using ih by (simp only:)
    qed
  qed
qed

lemma scheme_sep_unbordered:
  "ys \<noteq> [] \<Longrightarrow> prefix ''://'' (ys @ ''://'' @ t) \<Longrightarrow> prefix ''://'' ys"
proof (cases ys)
  case Nil
  assume "ys \<noteq> []"
  with Nil show ?thesis by simp
next
  case (Cons a as)
  assume p: "prefix ''://'' (ys @ ''://'' @ t)"
  show ?thesis
  proof (cases as)
    case Nil
    with p Cons show ?thesis by simp
  next
    case c2: (Cons b bs)
    show ?thesis
    proof (cases bs)
      case Nil
      with p Cons c2 show ?thesis by simp
    next
      case c3: (Cons c cs)
      with p Cons c2 show ?thesis by auto
    qed
  qed
qed

lemma last_split_from_scheme:
  "last (split_from ''://'' cur (xs @ ''://'' @ t)) = last (split_from ''://'' [] t)"
proof (rule last_split_from_after_sep)
  show "''://'' \<noteq> []" by simp
next
  fix ys
  assume "ys \<noteq> []" and "prefix ''://'' (ys @ ''://'' @ t)"
  then show "prefix ''://'' ys" by (rule scheme_sep_unbordered)
qed

lemma not_isspace_colon: "\<not> isspace (CHR '':'')" and not_isspace_slash: "\<not> isspace (CHR ''/'')"
  by (simp_all add: isspace_def)

lemma strip_scheme:
  "strip (p @ ''://'' @ t) = lstrip p @ ''://'' @ rstrip t"
proof -
  have l: "lstrip (p @ ''://'' @ t) = lstrip p @ ''://'' @ t"
    by (simp add: lstrip_def dropWhile_append3 not_isspace_colon)
  have "rev (q @ ''://'' @ t) = rev t @ CHR ''/'' # (''/:'' @ rev q)" for q
    by simp
  then have r: "rstrip (q @ ''://'' @ t) = q @ ''://'' @ rstrip t" for q
    unfolding rstrip_def by (simp add: dropWhile_append3 not_isspace_slash)
  show ?thesis using l r [of "lstrip p"] by (simp add: strip_def)
qed

lemma rstrip_decomp: "rstrip t @ rev (takeWhile isspace (rev t)) = t"
proof -
  have "rstrip t @ rev (takeWhile isspace (rev t))
          = rev (takeWhile isspace (rev t) @ dropWhile isspace (rev t))"
    unfolding rstrip_def rev_append ..
  also have "\<dots> = rev (rev t)" unfolding takeWhile_dropWhile_id ..
  finally show ?thesis by simp
qed

lemma sublist_rstrip: "sublist sep (rstrip t) \<Longrightarrow> sublist sep t"
proof -
  assume "sublist sep (rstrip t)"
  then obtain ps ss where "rstrip t = ps @ sep @ ss" by (auto simp: sublist_def)
  then have "t = ps @ sep @ (ss @ rev (takeWhile isspace (rev t)))"
    using rstrip_decomp [of t] by simp
  then show ?thesis unfolding sublist_def by blast
qed

lemma safe_name_last_piece:
  "safe_name (p @ ''://'' @ t) =
     (let r = SAFE_sub ''_'' (take 150 (last (split_str (rstrip t) ''://''))) in if r = [] then ''page'' else r)"
  using strip_scheme [of p t] last_split_from_scheme [of "[]" "lstrip p" "rstrip t"]
  by (simp add: safe_name_def split_str_def Let_def)

lemma last_split_no_sep:
  assumes "\<not> sublist ''://'' t"
  shows "last (split_str (rstrip t) ''://'') = rstrip t"
proof -
  have "\<not> sublist ''://'' (rstrip t)"
    using assms sublist_rstrip by blast
  then have "split_from ''://'' [] (rstrip t) = [[] @ rstrip t]"
    by (rule split_from_no_sep)
  then show ?thesis by (simp add: split_str_def)
qed

lemma safe_name_after_scheme:
  "safe_name (p @ ''://'' @ t) = safe_name (q @ ''://'' @ t)"
  by (simp only: safe_name_last_piece)

lemma page_names_nth:
  "k < length urls \<Longrightarrow> page_names urls ! k = page_name (Suc k) (urls ! k)"
  by (simp add: page_names_def nth_zip del: upt_Suc)

text \<open>
  C8 (as the code has it). The file name of the \<open>k\<close>-th URL (counting from 0) is
  made of the ordinal \<open>k + 1\<close> in the format \<open>03d\<close>, an underscore, the sanitized
  URL and the extension \<open>.pdf\<close>. The ordinal field consists of decimal digits, reads
  back as the ordinal, and has at least 3 characters: exactly 3 for an ordinal below
  1000, more from 1000 on. The sanitized URL has only characters of
  \<open>[a-zA-Z0-9._-]\<close> and at most 150 of them.
\<close>

theorem page_name_shape:
  "(k < length urls \<longrightarrow> page_names urls ! k = page_name (Suc k) (urls ! k))
   \<and> page_name i url = format_03d i @ ''_'' @ safe_name url @ ''.pdf''
   \<and> set (format_03d i) \<subseteq> set ''0123456789''
   \<and> int_of_digits (format_03d i) = i
   \<and> 3 \<le> length (format_03d i)
   \<and> (i < 1000 \<longleftrightarrow> length (format_03d i) = 3)
   \<and> set (safe_name url) \<subseteq> SAFE_class
   \<and> length (safe_name url) \<le> 150"
proof -
  have "i < 1000 \<longleftrightarrow> length (format_03d i) = 3"
    using str_nat_length_3 [of i] by (auto simp: format_03d_length)
  moreover have "3 \<le> length (format_03d i)"
    by (simp add: format_03d_length)
  ultimately show ?thesis
    using page_names_nth [of k urls] format_03d_digits [of i] safe_name_safe [of url]
      safe_name_length [of url]
    by (simp add: page_name_def int_of_digits_format_03d)
qed

theorem page_name_shape_witness:
  "(1::nat) < length [''https://a.b/c?d=1&e=2'', ''http://x.y/z:8080/p q'']
   \<and> page_names [''https://a.b/c?d=1&e=2'', ''http://x.y/z:8080/p q''] ! 1
       = ''002_x.y_z_8080_p_q.pdf''
   \<and> (7::nat) < 1000 \<and> length (format_03d 7) = 3
   \<and> page_name 7 ''https://a.b/c?d=1&e=2'' = ''007_a.b_c_d_1_e_2.pdf''"
proof -
  note inst = page_name_shape [of 1 "[''https://a.b/c?d=1&e=2'', ''http://x.y/z:8080/p q'']"
      7 "''https://a.b/c?d=1&e=2''"]
  have n: "page_names [''https://a.b/c?d=1&e=2'', ''http://x.y/z:8080/p q''] ! 1
             = page_name (Suc 1) ([''https://a.b/c?d=1&e=2'', ''http://x.y/z:8080/p q''] ! 1)"
    using inst by simp
  have l: "length (format_03d 7) = 3"
    using inst by simp
  have f2: "format_03d (Suc (Suc 0)) = ''002''" and f7: "format_03d 7 = ''007''"
    by code_simp+
  have s1: "safe_name ''http://x.y/z:8080/p q'' = ''x.y_z_8080_p_q''"
    by (simp add: safe_name_def split_str_def strip_def lstrip_def rstrip_def isspace_def
        SAFE_class_def)
  have s2: "safe_name ''https://a.b/c?d=1&e=2'' = ''a.b_c_d_1_e_2''"
    by (simp add: safe_name_def split_str_def strip_def lstrip_def rstrip_def isspace_def
        SAFE_class_def)
  show ?thesis
    using n l by (simp add: page_name_def f2 f7 s1 s2)
qed

text \<open>
  The 1000th URL of a run: its ordinal field has four digits, not three.
\<close>

theorem page_name_1000_counterexample:
  "page_name 1000 ''https://scholar.google.com/scholar?q=a:b&start=9990''
     = ''1000_scholar.google.com_scholar_q_a_b_start_9990.pdf''
   \<and> format_03d 1000 = ''1000''
   \<and> length (format_03d 1000) \<noteq> 3"
proof -
  have f: "format_03d 1000 = ''1000''"
    by (simp add: format_03d_def str_nat.simps digit_char_def)
  have s: "safe_name ''https://scholar.google.com/scholar?q=a:b&start=9990''
             = ''scholar.google.com_scholar_q_a_b_start_9990''"
    by (simp add: safe_name_def split_str_def strip_def lstrip_def rstrip_def isspace_def
        SAFE_class_def)
  show ?thesis by (simp add: page_name_def f s)
qed

text \<open>
  C10. The name of a URL that contains \<open>"://"\<close> does not depend on what stands
  before it: two URLs that differ only there (for instance in the scheme) get the same
  name. When \<open>t\<close> is what follows the last \<open>"://"\<close> (so \<open>t\<close> has no occurrence of
  it), the name is computed from \<open>t\<close> alone: trailing whitespace is stripped, the
  first 150 characters are kept, and only then are the characters substituted.
\<close>

theorem safe_name_scheme_stripped:
  "safe_name (p @ ''://'' @ t) = safe_name (q @ ''://'' @ t)
   \<and> (\<not> sublist ''://'' t \<longrightarrow>
        safe_name (p @ ''://'' @ t) =
          (let r = SAFE_sub ''_'' (take 150 (rstrip t)) in if r = [] then ''page'' else r))"
proof -
  have "safe_name (p @ ''://'' @ t) =
          (let r = SAFE_sub ''_'' (take 150 (rstrip t)) in if r = [] then ''page'' else r)"
    if "\<not> sublist ''://'' t"
    using last_split_no_sep [OF that] by (simp only: safe_name_last_piece)
  then show ?thesis
    using safe_name_after_scheme [of p t q] by blast
qed

theorem safe_name_scheme_stripped_witness:
  "\<not> sublist ''://'' ''a.b/c?d=1 ''
   \<and> safe_name (''http'' @ ''://'' @ ''a.b/c?d=1 '') = ''a.b_c_d_1''
   \<and> safe_name (''https'' @ ''://'' @ ''a.b/c?d=1 '') = ''a.b_c_d_1''"
proof -
  have n: "\<not> sublist ''://'' ''a.b/c?d=1 ''"
    by code_simp
  have r: "SAFE_sub ''_'' (take 150 (rstrip ''a.b/c?d=1 '')) = ''a.b_c_d_1''"
    by (simp add: rstrip_def isspace_def SAFE_class_def)
  note inst = safe_name_scheme_stripped [of "''http''" "''a.b/c?d=1 ''" "''https''"]
  have "safe_name (''http'' @ ''://'' @ ''a.b/c?d=1 '') =
          (let r = SAFE_sub ''_'' (take 150 (rstrip ''a.b/c?d=1 ''))
           in if r = [] then ''page'' else r)"
    using inst n by blast
  then have a: "safe_name (''http'' @ ''://'' @ ''a.b/c?d=1 '') = ''a.b_c_d_1''"
    unfolding r Let_def by simp
  have "safe_name (''http'' @ ''://'' @ ''a.b/c?d=1 '')
          = safe_name (''https'' @ ''://'' @ ''a.b/c?d=1 '')"
    using inst by blast
  with a have b: "safe_name (''https'' @ ''://'' @ ''a.b/c?d=1 '') = ''a.b_c_d_1''"
    by simp
  show ?thesis using n a b by blast
qed

section \<open>Properties of the URL range\<close>

lemma range_from_map:
  "0 < step \<Longrightarrow> stop \<le> i + int n * step \<Longrightarrow> (\<forall>k<n. i + int k * step < stop) \<Longrightarrow>
     range_from i stop step = map (\<lambda>k. i + int k * step) [0 ..< n]"
proof (induction n arbitrary: i)
  case 0
  then show ?case by (simp add: range_from.simps [of i])
next
  case (Suc n)
  have lt: "i < stop" using Suc.prems(3) [rule_format, of 0] by simp
  have a: "stop \<le> (i + step) + int n * step"
    using Suc.prems(2) by (simp add: algebra_simps)
  have b: "\<forall>k<n. (i + step) + int k * step < stop"
  proof (intro allI impI)
    fix k assume "k < n"
    then have "i + int (Suc k) * step < stop"
      using Suc.prems(3) [rule_format, of "Suc k"] by simp
    then show "(i + step) + int k * step < stop" by (simp add: algebra_simps)
  qed
  have ih: "range_from (i + step) stop step = map (\<lambda>k. (i + step) + int k * step) [0 ..< n]"
    using Suc.IH [OF Suc.prems(1) a b] .
  have m: "map (\<lambda>k. i + int k * step) [0 ..< Suc n]
             = i # map (\<lambda>k. (i + step) + int k * step) [0 ..< n]"
  proof -
    have "[0 ..< Suc n] = 0 # map Suc [0 ..< n]"
      by (simp add: upt_conv_Cons map_Suc_upt del: upt_Suc)
    then have "map (\<lambda>k. i + int k * step) [0 ..< Suc n]
                 = i # map ((\<lambda>k. i + int k * step) \<circ> Suc) [0 ..< n]"
      by (simp del: upt_Suc)
    also have "(\<lambda>k. i + int k * step) \<circ> Suc = (\<lambda>k. (i + step) + int k * step)"
      by (auto simp: algebra_simps)
    finally show ?thesis .
  qed
  show ?case
    using lt Suc.prems(1) ih by (simp add: range_from.simps [of i] m del: upt_Suc)
qed

lemma range_from_inclusive:
  assumes "start_from \<le> start_to" and "1 \<le> step"
  shows "range_from start_from (start_to + 1) step
           = map (\<lambda>k. start_from + int k * step)
               [0 ..< nat ((start_to - start_from) div step) + 1]"
proof (rule range_from_map)
  let ?d = "(start_to - start_from) div step"
  have d0: "0 \<le> ?d" using assms by (simp add: pos_imp_zdiv_nonneg_iff)
  have dm: "start_to - start_from = ?d * step + (start_to - start_from) mod step"
    by simp
  have mb: "(start_to - start_from) mod step < step" "0 \<le> (start_to - start_from) mod step"
    using assms by simp_all
  show "0 < step" using assms by simp
  show "start_to + 1 \<le> start_from + int (nat ?d + 1) * step"
  proof -
    have "int (nat ?d + 1) * step = ?d * step + step" using d0 by (simp add: algebra_simps)
    then show ?thesis using dm mb by linarith
  qed
  show "\<forall>k<nat ?d + 1. start_from + int k * step < start_to + 1"
  proof (intro allI impI)
    fix k assume "k < nat ?d + 1"
    then have "int k \<le> ?d" using d0 by linarith
    then have "int k * step \<le> ?d * step" using assms by (simp add: mult_right_mono)
    then show "start_from + int k * step < start_to + 1" using dm mb by linarith
  qed
qed

lemma parse_qs_loop_map_of:
  "map_of (parse_qs_loop pairs parsed) k =
     (case map_of parsed k of
        Some vs \<Rightarrow> Some (vs @ vals_of k pairs)
      | None \<Rightarrow> (if vals_of k pairs = [] then None else Some (vals_of k pairs)))"
proof (induction pairs arbitrary: parsed)
  case Nil
  then show ?case by (simp add: vals_of_def split: option.splits)
next
  case (Cons p pairs)
  obtain n v where p: "p = (n, v)" by (cases p)
  show ?case
    unfolding p parse_qs_loop.simps Cons.IH
    by (auto simp: AList.update_conv' vals_of_def split: option.splits)
qed

lemma parse_qs_loop_distinct:
  "distinct (map fst parsed) \<Longrightarrow> distinct (map fst (parse_qs_loop pairs parsed))"
proof (induction pairs arbitrary: parsed)
  case Nil
  then show ?case by simp
next
  case (Cons p pairs)
  obtain n v where p: "p = (n, v)" by (cases p)
  show ?case
    unfolding p parse_qs_loop.simps
    by (rule Cons.IH) (simp add: AList.distinct_update Cons.prems split: option.splits)
qed

lemma parse_qs_loop_nonempty:
  assumes "(k, vs) \<in> set (parse_qs_loop pairs [])"
  shows "vs \<noteq> []"
proof -
  have "distinct (map fst (parse_qs_loop pairs []))"
    by (rule parse_qs_loop_distinct) simp
  then have "map_of (parse_qs_loop pairs []) k = Some vs"
    using assms by simp
  then show ?thesis
    by (simp add: parse_qs_loop_map_of split: if_splits)
qed

lemma set_update_cases:
  "(k', v') \<in> set (AList.update k v al) \<Longrightarrow> (k', v') \<in> set al \<or> (k' = k \<and> v' = v)"
  by (induction al) (auto split: if_splits)

lemma first_values_map:
  "(\<And>k vs. (k, vs) \<in> set q \<Longrightarrow> vs \<noteq> []) \<Longrightarrow>
     first_values q = Inr (map (\<lambda>(k, vs). (k, hd vs)) q)"
proof (induction q)
  case Nil
  then show ?case by simp
next
  case (Cons p q)
  obtain k vs where p: "p = (k, vs)" by (cases p)
  have "vs \<noteq> []" using Cons.prems [of k vs] by (simp add: p)
  then obtain x xs where vs: "vs = x # xs" by (cases vs) auto
  have "vs' \<noteq> []" if "(k', vs') \<in> set q" for k' vs'
    using Cons.prems [of k' vs'] that by simp
  then have "first_values q = Inr (map (\<lambda>(k, vs). (k, hd vs)) q)"
    by (rule Cons.IH)
  then show ?case by (simp add: p vs)
qed

lemma new_query_items_map:
  "new_query_items (parse_qs_loop pairs []) s =
     Inr (map (\<lambda>(k, vs). (k, hd vs)) (AList.update ''start'' [str_int s] (parse_qs_loop pairs [])))"
  unfolding new_query_items_def Let_def
proof (rule first_values_map)
  fix k vs
  assume "(k, vs) \<in> set (AList.update ''start'' [str_int s] (parse_qs_loop pairs []))"
  then show "vs \<noteq> []"
    using set_update_cases parse_qs_loop_nonempty by fastforce
qed

lemma map_of_first:
  "map_of pairs k = (case vals_of k pairs of [] \<Rightarrow> None | v # _ \<Rightarrow> Some v)"
  by (induction pairs) (auto simp: vals_of_def)

lemma map_of_hd:
  "map_of (map (\<lambda>(k, vs). (k, hd vs)) q) k = map_option hd (map_of q k)"
  by (induction q) auto

lemma filter_distinct_key:
  "distinct (map fst xs) \<Longrightarrow> map_of xs k = Some v \<Longrightarrow> filter (\<lambda>(n, w). n = k) xs = [(k, v)]"
proof (induction xs)
  case Nil
  then show ?case by simp
next
  case (Cons p xs)
  obtain n w where p: "p = (n, w)" by (cases p)
  show ?case
  proof (cases "n = k")
    case True
    have "filter (\<lambda>(n, w). n = k) xs = []"
      using Cons.prems(1) True by (force simp: p filter_empty_conv)
    then show ?thesis using Cons.prems(2) True by (simp add: p)
  next
    case False
    then show ?thesis using Cons by (simp add: p)
  qed
qed

lemma new_query_items_props:
  assumes "new_query_items (parse_qs_loop pairs []) s = Inr items"
  shows "distinct (map fst items)"
    and "map_of items ''start'' = Some (str_int s)"
    and "name \<noteq> ''start'' \<Longrightarrow> map_of items name = map_of pairs name"
    and "filter (\<lambda>(n, w). n = ''start'') items = [(''start'', str_int s)]"
proof -
  let ?q = "parse_qs_loop pairs []"
  let ?qm = "AList.update ''start'' [str_int s] ?q"
  have items: "items = map (\<lambda>(k, vs). (k, hd vs)) ?qm"
    using assms by (simp add: new_query_items_map)
  have dq: "distinct (map fst ?q)" by (rule parse_qs_loop_distinct) simp
  have "map fst items = map fst ?qm" unfolding items by (induction ?qm) auto
  then show d: "distinct (map fst items)" using dq by (simp add: AList.distinct_update)
  show st: "map_of items ''start'' = Some (str_int s)"
    unfolding items map_of_hd by (simp add: AList.update_conv')
  show "filter (\<lambda>(n, w). n = ''start'') items = [(''start'', str_int s)]"
    using d st by (rule filter_distinct_key)
  show "map_of items name = map_of pairs name" if "name \<noteq> ''start''"
  proof -
    have "map_of items name = map_option hd (map_of ?q name)"
      unfolding items map_of_hd using that by (simp add: AList.update_conv')
    also have "\<dots> = map_of pairs name"
      by (cases "vals_of name pairs") (simp_all add: parse_qs_loop_map_of map_of_first)
    finally show ?thesis .
  qed
qed

lemma update_absent: "k \<notin> fst ` set al \<Longrightarrow> AList.update k v al = al @ [(k, v)]"
  by (induction al) auto

lemma parse_qs_loop_no_repeats:
  "distinct (map fst pairs) \<Longrightarrow> fst ` set pairs \<inter> fst ` set parsed = {} \<Longrightarrow>
     parse_qs_loop pairs parsed = parsed @ map (\<lambda>(k, v). (k, [v])) pairs"
proof (induction pairs arbitrary: parsed)
  case Nil
  then show ?case by simp
next
  case (Cons p pairs)
  obtain n v where p: "p = (n, v)" by (cases p)
  have absent: "n \<notin> fst ` set parsed" using Cons.prems(2) by (auto simp: p)
  then have none: "map_of parsed n = None" by (simp add: map_of_eq_None_iff)
  have d: "distinct (map fst pairs)" using Cons.prems(1) by simp
  have disj: "fst ` set pairs \<inter> fst ` set (parsed @ [(n, [v])]) = {}"
    using Cons.prems by (auto simp: p)
  show ?case
    using Cons.IH [OF d disj] by (simp add: p none update_absent [OF absent])
qed

lemma filter_update_other:
  "filter (\<lambda>(n, w). n \<noteq> k) (AList.update k v al) = filter (\<lambda>(n, w). n \<noteq> k) al"
  by (induction al) auto

lemma filter_first_singletons:
  "filter (\<lambda>(n, w). n \<noteq> k) (map (\<lambda>(k, vs). (k, hd vs)) (map (\<lambda>(k, v). (k, [v])) pairs))
     = filter (\<lambda>(n, w). n \<noteq> k) pairs"
  by (induction pairs) auto

lemma filter_hd_commute:
  "filter (\<lambda>(n, w). n \<noteq> k) (map (\<lambda>(k, vs). (k, hd vs)) q)
     = map (\<lambda>(k, vs). (k, hd vs)) (filter (\<lambda>(n, w). n \<noteq> k) q)"
  by (induction q) auto

lemma new_query_items_no_repeats:
  assumes "new_query_items (parse_qs_loop pairs []) s = Inr items"
    and "distinct (map fst pairs)"
  shows "filter (\<lambda>(n, w). n \<noteq> ''start'') items = filter (\<lambda>(n, w). n \<noteq> ''start'') pairs"
proof -
  have q: "parse_qs_loop pairs [] = map (\<lambda>(k, v). (k, [v])) pairs"
    using parse_qs_loop_no_repeats [OF assms(2), of "[]"] by simp
  have "items = map (\<lambda>(k, vs). (k, hd vs))
                  (AList.update ''start'' [str_int s] (parse_qs_loop pairs []))"
    using assms(1) new_query_items_map [of pairs s] by simp
  then have "items = map (\<lambda>(k, vs). (k, hd vs))
                  (AList.update ''start'' [str_int s] (map (\<lambda>(k, v). (k, [v])) pairs))"
    unfolding q .
  then show ?thesis
    by (simp only: filter_hd_commute filter_update_other)
       (simp only: filter_first_singletons flip: filter_hd_commute)
qed

lemma new_url_total:
  "\<exists>items. new_query_items (parse_qs_loop pairs []) s = Inr items
     \<and> new_url lib parsed (parse_qs_loop pairs []) s
         = Inr (urlunparse lib (parsed\<lparr>query := urlencode lib items\<rparr>))"
  by (simp add: new_url_def new_query_items_map Let_def)

lemma build_urls_loop_map:
  "\<exists>us. build_urls_loop lib parsed (parse_qs_loop pairs []) ss urls = Inr (urls @ us)
     \<and> map Inr us = map (new_url lib parsed (parse_qs_loop pairs [])) ss"
proof (induction ss arbitrary: urls)
  case Nil
  then show ?case by simp
next
  case (Cons s ss)
  obtain u where u: "new_url lib parsed (parse_qs_loop pairs []) s = Inr u"
    using new_url_total [of pairs s lib parsed] by blast
  obtain us where us: "build_urls_loop lib parsed (parse_qs_loop pairs []) ss (urls @ [u])
                         = Inr ((urls @ [u]) @ us)"
    and m: "map Inr us = map (new_url lib parsed (parse_qs_loop pairs [])) ss"
    using Cons.IH [of "urls @ [u]"] by blast
  have "build_urls_loop lib parsed (parse_qs_loop pairs []) (s # ss) urls = Inr (urls @ (u # us))"
    by (simp add: u us)
  moreover have "map Inr (u # us) = map (new_url lib parsed (parse_qs_loop pairs [])) (s # ss)"
    by (simp add: u m)
  ultimately show ?case by blast
qed

lemma build_urls_from_range_map:
  assumes "step \<noteq> 0"
  shows "\<exists>us. build_urls_from_range lib base_url start_from start_to step = Inr us
     \<and> map Inr us = map (new_url lib (urlparse lib base_url)
                            (parse_qs lib (query (urlparse lib base_url))))
                       (range_from start_from (start_to + 1) step)"
  using assms
    build_urls_loop_map [of lib "urlparse lib base_url"
      "parse_qsl lib (query (urlparse lib base_url))"
      "range_from start_from (start_to + 1) step" "[]"]
  by (simp add: build_urls_from_range_def py_range_def parse_qs_def Let_def)

lemma build_urls_from_range_step_0:
  "build_urls_from_range lib base_url start_from start_to 0 = Inl ValueError"
  by (simp add: build_urls_from_range_def py_range_def Let_def)

lemma build_urls_loop_member:
  "build_urls_loop lib parsed q ss acc = Inr urls \<Longrightarrow> u \<in> set urls \<Longrightarrow>
     u \<in> set acc \<or> (\<exists>s. new_url lib parsed q s = Inr u)"
proof (induction ss arbitrary: acc)
  case Nil
  then show ?case by simp
next
  case (Cons s ss)
  show ?case
  proof (cases "new_url lib parsed q s")
    case (Inl e)
    then show ?thesis using Cons.prems by simp
  next
    case (Inr v)
    then have "build_urls_loop lib parsed q ss (acc @ [v]) = Inr urls"
      using Cons.prems(1) by simp
    from Cons.IH [OF this Cons.prems(2)] show ?thesis
      using Inr by auto
  qed
qed

lemma first_values_update:
  "map (\<lambda>(k, vs). (k, hd vs)) (AList.update k [v] q)
     = AList.update k v (map (\<lambda>(k, vs). (k, hd vs)) q)"
  by (induction q) auto

lemma first_values_append_value:
  "map_of q k = Some vs \<Longrightarrow> vs \<noteq> [] \<Longrightarrow>
     map (\<lambda>(k, vs). (k, hd vs)) (AList.update k (vs @ [v]) q) = map (\<lambda>(k, vs). (k, hd vs)) q"
  by (induction q) (auto split: if_splits)

lemma parse_qs_loop_first_occurrences:
  "(\<And>k vs. (k, vs) \<in> set parsed \<Longrightarrow> vs \<noteq> []) \<Longrightarrow> distinct (map fst parsed) \<Longrightarrow>
     map (\<lambda>(k, vs). (k, hd vs)) (parse_qs_loop pairs parsed)
       = map (\<lambda>(k, vs). (k, hd vs)) parsed @ first_occ_from (fst ` set parsed) pairs"
proof (induction pairs arbitrary: parsed)
  case Nil
  then show ?case by simp
next
  case (Cons p pairs)
  obtain n v where p: "p = (n, v)" by (cases p)
  show ?case
  proof (cases "map_of parsed n")
    case None
    then have absent: "n \<notin> fst ` set parsed" by (simp add: map_of_eq_None_iff)
    let ?parsed = "parsed @ [(n, [v])]"
    have ne: "vs \<noteq> []" if "(k, vs) \<in> set ?parsed" for k vs
      using that Cons.prems(1) [of k vs] by auto
    have d: "distinct (map fst ?parsed)" using Cons.prems(2) absent by simp
    have "map (\<lambda>(k, vs). (k, hd vs)) (parse_qs_loop pairs ?parsed)
            = map (\<lambda>(k, vs). (k, hd vs)) ?parsed @ first_occ_from (fst ` set ?parsed) pairs"
      using Cons.IH [of ?parsed] ne d by blast
    then show ?thesis
      using absent by (simp add: p None update_absent [OF absent])
  next
    case (Some vs)
    have mem: "(n, vs) \<in> set parsed" using Some by (rule map_of_SomeD)
    then have present: "n \<in> fst ` set parsed" by force
    have vs: "vs \<noteq> []" using mem Cons.prems(1) by blast
    let ?parsed = "AList.update n (vs @ [v]) parsed"
    have ne: "ws \<noteq> []" if "(k, ws) \<in> set ?parsed" for k ws
      using set_update_cases [OF that] Cons.prems(1) [of k ws] by auto
    have d: "distinct (map fst ?parsed)" using Cons.prems(2) by (simp add: AList.distinct_update)
    have keys: "fst ` set ?parsed = fst ` set parsed"
      using present by (simp add: AList.dom_update insert_absorb)
    have "map (\<lambda>(k, vs). (k, hd vs)) (parse_qs_loop pairs ?parsed)
            = map (\<lambda>(k, vs). (k, hd vs)) ?parsed @ first_occ_from (fst ` set ?parsed) pairs"
      using Cons.IH [of ?parsed] ne d by blast
    then show ?thesis
      using present by (simp add: p Some keys first_values_append_value [OF Some vs])
  qed
qed

lemma new_query_items_first_occurrences:
  "new_query_items (parse_qs_loop pairs []) s
     = Inr (AList.update ''start'' (str_int s) (first_occurrences pairs))"
  using parse_qs_loop_first_occurrences [of "[]" pairs]
  by (simp add: new_query_items_map first_values_update first_occurrences_def)

lemma first_occ_from_no_repeats:
  "distinct (map fst pairs) \<Longrightarrow> fst ` set pairs \<inter> seen = {} \<Longrightarrow> first_occ_from seen pairs = pairs"
proof (induction pairs arbitrary: seen)
  case Nil
  then show ?case by simp
next
  case (Cons p pairs)
  obtain n v where p: "p = (n, v)" by (cases p)
  have "first_occ_from (insert n seen) pairs = pairs"
    using Cons.prems by (intro Cons.IH) (auto simp: p)
  then show ?case using Cons.prems by (auto simp: p)
qed

lemma first_occurrences_no_repeats:
  "distinct (map fst pairs) \<Longrightarrow> first_occurrences pairs = pairs"
  by (simp add: first_occurrences_def first_occ_from_no_repeats)

lemma first_occ_from_distinct:
  "distinct (map fst (first_occ_from seen pairs)) \<and> fst ` set (first_occ_from seen pairs) \<inter> seen = {}"
proof (induction pairs arbitrary: seen)
  case Nil
  then show ?case by simp
next
  case (Cons p pairs)
  obtain n v where p: "p = (n, v)" by (cases p)
  show ?case using Cons.IH [of seen] Cons.IH [of "insert n seen"] by (auto simp: p)
qed

lemma first_occ_from_map_of:
  "k \<notin> seen \<Longrightarrow> map_of (first_occ_from seen pairs) k = map_of pairs k"
proof (induction pairs arbitrary: seen)
  case Nil
  then show ?case by simp
next
  case (Cons p pairs)
  obtain n v where p: "p = (n, v)" by (cases p)
  show ?case using Cons.IH [of seen] Cons.IH [of "insert n seen"] Cons.prems by (auto simp: p)
qed

lemma build_urls_from_range_member:
  assumes "build_urls_from_range lib base_url start_from start_to step = Inr urls"
    and "u \<in> set urls"
  shows "\<exists>s \<in> set (range_from start_from (start_to + 1) step).
           new_url lib (urlparse lib base_url) (parse_qs lib (query (urlparse lib base_url))) s = Inr u"
proof -
  have step: "step \<noteq> 0"
    using assms(1) by (auto simp: build_urls_from_range_def py_range_def Let_def)
  from build_urls_from_range_map [OF step, of lib base_url start_from start_to] assms(1)
  have m: "map Inr urls = map (new_url lib (urlparse lib base_url)
                            (parse_qs lib (query (urlparse lib base_url))))
                       (range_from start_from (start_to + 1) step)"
    by simp
  have "set (map Inr urls) = set (map (new_url lib (urlparse lib base_url)
                            (parse_qs lib (query (urlparse lib base_url))))
                       (range_from start_from (start_to + 1) step))"
    by (simp only: m)
  then have "Inr ` set urls = new_url lib (urlparse lib base_url)
                            (parse_qs lib (query (urlparse lib base_url)))
                       ` set (range_from start_from (start_to + 1) step)"
    by simp
  moreover have "Inr u \<in> Inr ` set urls" using assms(2) by simp
  ultimately show ?thesis by force
qed

lemmas plain_defs =
  build_urls_from_range_def plain_urllib_def plain_urlparse_def plain_parse_qsl_def
  plain_urlunparse_def before_char_def after_char_def split_char_def parse_qs_def
  py_range_def range_from.simps new_url_def new_query_items_def str_int_def str_nat.simps
  digit_char_def Let_def lower_char_def unquote_plus_def quote_plus_def quote_plus_char_def
  SAFE_class_def hex_val_def hex_digit_def char_of_def bit_0

lemma plain_run_scholar:
  "build_urls_from_range plain_urllib
       ''https://scholar.google.com/citations?user=abc&start=5&hl=en#top'' 0 25 10
     = Inr [''https://scholar.google.com/citations?user=abc&start=0&hl=en#top'',
            ''https://scholar.google.com/citations?user=abc&start=10&hl=en#top'',
            ''https://scholar.google.com/citations?user=abc&start=20&hl=en#top'']"
  by (simp add: plain_defs)

lemma plain_parse_scholar:
  "urlparse plain_urllib ''https://scholar.google.com/citations?user=abc&start=5&hl=en#top''
     = \<lparr>scheme = ''https'', netloc = ''scholar.google.com'', path = ''/citations'', params = [],
        query = ''user=abc&start=5&hl=en'', fragment = ''top''\<rparr>"
  by (simp add: plain_defs)

lemma plain_pairs_scholar:
  "parse_qsl plain_urllib ''user=abc&start=5&hl=en''
     = [(''user'', ''abc''), (''start'', ''5''), (''hl'', ''en'')]"
  by (simp add: plain_defs)

lemma plain_unparse_scholar:
  "urlunparse plain_urllib
     \<lparr>scheme = ''https'', netloc = ''scholar.google.com'', path = ''/citations'', params = [],
      query = ''user=abc&start=5&hl=en'', fragment = ''top''\<rparr>
     = ''https://scholar.google.com/citations?user=abc&start=5&hl=en#top''"
  "urlencode plain_urllib [(''user'', ''abc''), (''start'', ''5''), (''hl'', ''en'')]
     = ''user=abc&start=5&hl=en''"
  by (simp_all add: plain_defs)

lemma plain_range_scholar: "range_from 0 (25 + 1) 10 = [0, 10, 20]"
  by (simp add: range_from.simps)

text \<open>
  C3. For \<open>start_from \<le> start_to\<close> and \<open>step \<ge> 1\<close>, and every base URL and
  library, the function returns exactly \<open>(start_to - start_from) div step + 1\<close>
  URLs. The \<open>k\<close>-th of them is built from the base URL's components with the query
  \<open>urlencode\<close> makes of a parameter list in which \<open>start\<close> occurs exactly once,
  with the value \<open>str(start_from + k * step)\<close>, whatever \<open>start\<close> values the base
  URL had; these values are strictly ascending in \<open>k\<close>.
\<close>

theorem build_urls_from_range_start_values:
  assumes "start_from \<le> start_to" and "1 \<le> step"
  shows "\<exists>urls. build_urls_from_range lib base_url start_from start_to step = Inr urls
     \<and> length urls = nat ((start_to - start_from) div step) + 1
     \<and> (\<forall>k<length urls. \<exists>items.
            new_query_items (parse_qs lib (query (urlparse lib base_url)))
                (start_from + int k * step) = Inr items
          \<and> urls ! k = urlunparse lib ((urlparse lib base_url)\<lparr>query := urlencode lib items\<rparr>)
          \<and> filter (\<lambda>(name, v). name = ''start'') items
                = [(''start'', str_int (start_from + int k * step))])
     \<and> (\<forall>j k. j < k \<longrightarrow> start_from + int j * step < start_from + int k * step)"
proof -
  let ?parsed = "urlparse lib base_url"
  let ?pairs = "parse_qsl lib (query ?parsed)"
  let ?q = "parse_qs lib (query ?parsed)"
  let ?n = "nat ((start_to - start_from) div step) + 1"
  let ?s = "\<lambda>k. start_from + int k * step"
  have q: "?q = parse_qs_loop ?pairs []" by (simp add: parse_qs_def)
  have "step \<noteq> 0" using assms(2) by simp
  then obtain urls where run: "build_urls_from_range lib base_url start_from start_to step = Inr urls"
    and m: "map Inr urls = map (new_url lib ?parsed ?q) (range_from start_from (start_to + 1) step)"
    using build_urls_from_range_map [of step lib base_url start_from start_to] by blast
  have m': "map Inr urls = map (new_url lib ?parsed ?q) (map ?s [0 ..< ?n])"
    using m range_from_inclusive [OF assms] by simp
  have len: "length urls = ?n"
    using arg_cong [OF m', of length] by simp
  have each: "\<exists>items. new_query_items ?q (?s k) = Inr items
      \<and> urls ! k = urlunparse lib (?parsed\<lparr>query := urlencode lib items\<rparr>)
      \<and> filter (\<lambda>(name, v). name = ''start'') items = [(''start'', str_int (?s k))]"
    if k: "k < length urls" for k
  proof -
    have "map Inr urls ! k = map (new_url lib ?parsed ?q) (map ?s [0 ..< ?n]) ! k"
      using m' by simp
    then have u: "new_url lib ?parsed ?q (?s k) = Inr (urls ! k)"
      using k len by (simp del: upt_Suc)
    obtain items where i: "new_query_items ?q (?s k) = Inr items"
      and "new_url lib ?parsed ?q (?s k) = Inr (urlunparse lib (?parsed\<lparr>query := urlencode lib items\<rparr>))"
      using new_url_total [of ?pairs "?s k" lib ?parsed] unfolding q by blast
    then have "urls ! k = urlunparse lib (?parsed\<lparr>query := urlencode lib items\<rparr>)"
      using u by simp
    moreover have "filter (\<lambda>(name, v). name = ''start'') items = [(''start'', str_int (?s k))]"
      using new_query_items_props(4) [of ?pairs "?s k" items] i unfolding q by simp
    ultimately show ?thesis using i by blast
  qed
  have asc: "?s j < ?s k" if "j < k" for j k :: nat
  proof -
    have "int j * step < int k * step" using that assms(2) by simp
    then show ?thesis by simp
  qed
  show ?thesis using run len each asc by blast
qed

theorem build_urls_from_range_start_values_witness:
  "(0::int) \<le> 25 \<and> (1::int) \<le> 10
   \<and> build_urls_from_range plain_urllib
        ''https://scholar.google.com/citations?user=abc&start=5&hl=en#top'' 0 25 10
       = Inr [''https://scholar.google.com/citations?user=abc&start=0&hl=en#top'',
              ''https://scholar.google.com/citations?user=abc&start=10&hl=en#top'',
              ''https://scholar.google.com/citations?user=abc&start=20&hl=en#top'']
   \<and> length [''https://scholar.google.com/citations?user=abc&start=0&hl=en#top'',
              ''https://scholar.google.com/citations?user=abc&start=10&hl=en#top'',
              ''https://scholar.google.com/citations?user=abc&start=20&hl=en#top'']
       = nat ((25 - 0) div 10) + 1"
proof -
  have h1: "(0::int) \<le> 25" and h2: "(1::int) \<le> 10" by simp_all
  obtain urls where
    "build_urls_from_range plain_urllib
       ''https://scholar.google.com/citations?user=abc&start=5&hl=en#top'' 0 25 10 = Inr urls"
    and "length urls = nat ((25 - 0) div 10) + 1"
    using build_urls_from_range_start_values [OF h1 h2, of plain_urllib
        "''https://scholar.google.com/citations?user=abc&start=5&hl=en#top''"]
    by blast
  then show ?thesis
    using plain_run_scholar by simp
qed

text \<open>
  C4 (as the code has it). Every URL the function returns is, for a value \<open>s\<close> of
  the range, \<open>urlunparse\<close> of the components \<open>urlparse\<close> gave for the base URL
  with only the query replaced. The new query is \<open>urlencode\<close> of this parameter
  list: the first occurrence of every name among the decoded fields of the base query
  (\<open>parse_qsl\<close>), in their order, with \<open>start\<close> set to \<open>str(s)\<close>, in its
  place when the base query has it and at the end otherwise. The names of the list are
  distinct, and a name other than \<open>start\<close> has in it the first value it has in the
  base query. When no name is repeated in the base query, the list is the base query's
  fields with \<open>start\<close> set; if moreover the base URL is what the library writes
  for the components and fields it reads from it, the base URL and the generated URL
  are written by the library from the same components and from parameter lists that
  differ only in the value of \<open>start\<close>.
\<close>

theorem build_urls_from_range_other_params:
  assumes "build_urls_from_range lib base_url start_from start_to step = Inr urls"
    and "u \<in> set urls"
  shows "\<exists>s items.
       s \<in> set (range_from start_from (start_to + 1) step)
     \<and> new_query_items (parse_qs lib (query (urlparse lib base_url))) s = Inr items
     \<and> u = urlunparse lib ((urlparse lib base_url)\<lparr>query := urlencode lib items\<rparr>)
     \<and> items = AList.update ''start'' (str_int s)
                 (first_occurrences (parse_qsl lib (query (urlparse lib base_url))))
     \<and> distinct (map fst items)
     \<and> (\<forall>name. name \<noteq> ''start'' \<longrightarrow>
           map_of items name = map_of (parse_qsl lib (query (urlparse lib base_url))) name)
     \<and> (distinct (map fst (parse_qsl lib (query (urlparse lib base_url)))) \<longrightarrow>
           items = AList.update ''start'' (str_int s)
                     (parse_qsl lib (query (urlparse lib base_url)))
         \<and> filter (\<lambda>(name, v). name \<noteq> ''start'') items
             = filter (\<lambda>(name, v). name \<noteq> ''start'')
                 (parse_qsl lib (query (urlparse lib base_url)))
         \<and> (urlunparse lib (urlparse lib base_url) = base_url \<longrightarrow>
            urlencode lib (parse_qsl lib (query (urlparse lib base_url)))
              = query (urlparse lib base_url) \<longrightarrow>
              base_url = urlunparse lib ((urlparse lib base_url)
                  \<lparr>query := urlencode lib (parse_qsl lib (query (urlparse lib base_url)))\<rparr>)
            \<and> u = urlunparse lib ((urlparse lib base_url)
                  \<lparr>query := urlencode lib (AList.update ''start'' (str_int s)
                               (parse_qsl lib (query (urlparse lib base_url))))\<rparr>)))"
proof -
  let ?parsed = "urlparse lib base_url"
  let ?pairs = "parse_qsl lib (query ?parsed)"
  let ?q = "parse_qs_loop ?pairs []"
  have q: "parse_qs lib (query ?parsed) = ?q" by (simp add: parse_qs_def)
  obtain s where s: "s \<in> set (range_from start_from (start_to + 1) step)"
    and n: "new_url lib ?parsed ?q s = Inr u"
    using build_urls_from_range_member [OF assms] unfolding q by blast
  let ?items = "AList.update ''start'' (str_int s) (first_occurrences ?pairs)"
  have i: "new_query_items ?q s = Inr ?items"
    by (rule new_query_items_first_occurrences)
  have u: "u = urlunparse lib (?parsed\<lparr>query := urlencode lib ?items\<rparr>)"
    using n by (simp add: new_url_def i)
  have d: "distinct (map fst ?items)"
    using new_query_items_props(1) [OF i] .
  have m: "\<forall>name. name \<noteq> ''start'' \<longrightarrow> map_of ?items name = map_of ?pairs name"
    using new_query_items_props(3) [OF i] by blast
  have nr: "?items = AList.update ''start'' (str_int s) ?pairs
      \<and> filter (\<lambda>(name, v). name \<noteq> ''start'') ?items
          = filter (\<lambda>(name, v). name \<noteq> ''start'') ?pairs
      \<and> (urlunparse lib ?parsed = base_url \<longrightarrow> urlencode lib ?pairs = query ?parsed \<longrightarrow>
            base_url = urlunparse lib (?parsed\<lparr>query := urlencode lib ?pairs\<rparr>)
          \<and> u = urlunparse lib (?parsed
                  \<lparr>query := urlencode lib (AList.update ''start'' (str_int s) ?pairs)\<rparr>))"
    if dp: "distinct (map fst ?pairs)"
  proof -
    have e: "?items = AList.update ''start'' (str_int s) ?pairs"
      by (simp add: first_occurrences_no_repeats [OF dp])
    have f: "filter (\<lambda>(name, v). name \<noteq> ''start'') ?items
          = filter (\<lambda>(name, v). name \<noteq> ''start'') ?pairs"
      using new_query_items_no_repeats [OF i dp] .
    have "base_url = urlunparse lib (?parsed\<lparr>query := urlencode lib ?pairs\<rparr>)"
      if "urlunparse lib ?parsed = base_url" and "urlencode lib ?pairs = query ?parsed"
      using that by simp
    moreover have "u = urlunparse lib (?parsed
                  \<lparr>query := urlencode lib (AList.update ''start'' (str_int s) ?pairs)\<rparr>)"
      using u unfolding e .
    ultimately show ?thesis using e f by blast
  qed
  show ?thesis
    unfolding q
    by (rule exI [of _ s], rule exI [of _ ?items]) (use s i u d m nr in blast)
qed

theorem build_urls_from_range_other_params_witness:
  "build_urls_from_range plain_urllib
       ''https://scholar.google.com/citations?user=abc&start=5&hl=en#top'' 0 25 10
     = Inr [''https://scholar.google.com/citations?user=abc&start=0&hl=en#top'',
            ''https://scholar.google.com/citations?user=abc&start=10&hl=en#top'',
            ''https://scholar.google.com/citations?user=abc&start=20&hl=en#top'']
   \<and> ''https://scholar.google.com/citations?user=abc&start=10&hl=en#top''
       \<in> set [''https://scholar.google.com/citations?user=abc&start=0&hl=en#top'',
               ''https://scholar.google.com/citations?user=abc&start=10&hl=en#top'',
               ''https://scholar.google.com/citations?user=abc&start=20&hl=en#top'']
   \<and> distinct (map fst [(''user'', ''abc''), (''start'', ''5''), (''hl'', ''en'')])
   \<and> (\<exists>s items.
         s \<in> set [0, 10, 20]
       \<and> ''https://scholar.google.com/citations?user=abc&start=10&hl=en#top''
           = urlunparse plain_urllib
               \<lparr>scheme = ''https'', netloc = ''scholar.google.com'', path = ''/citations'',
                params = [], query = urlencode plain_urllib items, fragment = ''top''\<rparr>
       \<and> items = AList.update ''start'' (str_int s)
                   [(''user'', ''abc''), (''start'', ''5''), (''hl'', ''en'')]
       \<and> filter (\<lambda>(name, v). name \<noteq> ''start'') items = [(''user'', ''abc''), (''hl'', ''en'')]
       \<and> ''https://scholar.google.com/citations?user=abc&start=5&hl=en#top''
           = urlunparse plain_urllib
               \<lparr>scheme = ''https'', netloc = ''scholar.google.com'', path = ''/citations'',
                params = [],
                query = urlencode plain_urllib
                          [(''user'', ''abc''), (''start'', ''5''), (''hl'', ''en'')],
                fragment = ''top''\<rparr>)"
proof -
  let ?base = "''https://scholar.google.com/citations?user=abc&start=5&hl=en#top''"
  let ?u = "''https://scholar.google.com/citations?user=abc&start=10&hl=en#top''"
  let ?urls = "[''https://scholar.google.com/citations?user=abc&start=0&hl=en#top'', ?u,
                ''https://scholar.google.com/citations?user=abc&start=20&hl=en#top'']"
  let ?pairs = "[(''user'', ''abc''), (''start'', ''5''), (''hl'', ''en'')]"
  have run: "build_urls_from_range plain_urllib ?base 0 25 10 = Inr ?urls"
    by (rule plain_run_scholar)
  have mem: "?u \<in> set ?urls" by simp
  have p: "parse_qsl plain_urllib (query (urlparse plain_urllib ?base)) = ?pairs"
    unfolding plain_parse_scholar by (simp add: plain_pairs_scholar)
  have d: "distinct (map fst (parse_qsl plain_urllib (query (urlparse plain_urllib ?base))))"
    unfolding p by simp
  have f1: "urlunparse plain_urllib (urlparse plain_urllib ?base) = ?base"
    unfolding plain_parse_scholar by (rule plain_unparse_scholar(1))
  have f2: "urlencode plain_urllib (parse_qsl plain_urllib (query (urlparse plain_urllib ?base)))
              = query (urlparse plain_urllib ?base)"
    by (simp add: plain_parse_scholar plain_pairs_scholar plain_unparse_scholar(2))
  from build_urls_from_range_other_params [OF run mem]
  obtain s items where s: "s \<in> set (range_from 0 (25 + 1) 10)"
    and rest: "distinct (map fst (parse_qsl plain_urllib (query (urlparse plain_urllib ?base)))) \<longrightarrow>
           items = AList.update ''start'' (str_int s)
                     (parse_qsl plain_urllib (query (urlparse plain_urllib ?base)))
         \<and> filter (\<lambda>(name, v). name \<noteq> ''start'') items
             = filter (\<lambda>(name, v). name \<noteq> ''start'')
                 (parse_qsl plain_urllib (query (urlparse plain_urllib ?base)))
         \<and> (urlunparse plain_urllib (urlparse plain_urllib ?base) = ?base \<longrightarrow>
            urlencode plain_urllib (parse_qsl plain_urllib (query (urlparse plain_urllib ?base)))
              = query (urlparse plain_urllib ?base) \<longrightarrow>
              ?base = urlunparse plain_urllib ((urlparse plain_urllib ?base)
                  \<lparr>query := urlencode plain_urllib
                      (parse_qsl plain_urllib (query (urlparse plain_urllib ?base)))\<rparr>)
            \<and> ?u = urlunparse plain_urllib ((urlparse plain_urllib ?base)
                  \<lparr>query := urlencode plain_urllib (AList.update ''start'' (str_int s)
                               (parse_qsl plain_urllib (query (urlparse plain_urllib ?base))))\<rparr>))"
    by (elim exE conjE)
  have a: "items = AList.update ''start'' (str_int s) ?pairs"
    and b: "filter (\<lambda>(name, v). name \<noteq> ''start'') items
             = filter (\<lambda>(name, v). name \<noteq> ''start'') ?pairs"
    and c: "?base = urlunparse plain_urllib ((urlparse plain_urllib ?base)
                  \<lparr>query := urlencode plain_urllib ?pairs\<rparr>)"
    and e: "?u = urlunparse plain_urllib ((urlparse plain_urllib ?base)
                  \<lparr>query := urlencode plain_urllib (AList.update ''start'' (str_int s) ?pairs)\<rparr>)"
    using rest d f1 f2 unfolding p by blast+
  have "s \<in> set [0, 10, 20]
      \<and> ?u = urlunparse plain_urllib
               \<lparr>scheme = ''https'', netloc = ''scholar.google.com'', path = ''/citations'',
                params = [], query = urlencode plain_urllib items, fragment = ''top''\<rparr>
      \<and> items = AList.update ''start'' (str_int s) ?pairs
      \<and> filter (\<lambda>(name, v). name \<noteq> ''start'') items = [(''user'', ''abc''), (''hl'', ''en'')]
      \<and> ?base = urlunparse plain_urllib
               \<lparr>scheme = ''https'', netloc = ''scholar.google.com'', path = ''/citations'',
                params = [], query = urlencode plain_urllib ?pairs, fragment = ''top''\<rparr>"
    using s a b c e unfolding plain_parse_scholar plain_range_scholar by simp
  moreover have "distinct (map fst ?pairs)" by simp
  ultimately show ?thesis using run mem by blast
qed

text \<open>
  Four base URLs with no \<open>start\<close> parameter, one URL generated from each. The
  second value of a repeated parameter is lost; a parameter with a blank value is lost;
  an escape is written in another way; the scheme is put in lower case.
\<close>

theorem build_urls_from_range_repeated_counterexample:
  "build_urls_from_range plain_urllib ''https://h.org/p?tag=a&tag=b'' 0 0 10
     = Inr [''https://h.org/p?tag=a&start=0'']
   \<and> parse_qsl plain_urllib (query (urlparse plain_urllib ''https://h.org/p?tag=a&tag=b''))
       = [(''tag'', ''a''), (''tag'', ''b'')]
   \<and> parse_qsl plain_urllib (query (urlparse plain_urllib ''https://h.org/p?tag=a&start=0''))
       = [(''tag'', ''a''), (''start'', ''0'')]
   \<and> new_query_items (parse_qs_loop [(''tag'', ''a''), (''tag'', ''b'')] []) 0
       = Inr [(''tag'', ''a''), (''start'', ''0'')]
   \<and> build_urls_from_range plain_urllib ''https://h.org/p?a=&b=1'' 0 0 10
       = Inr [''https://h.org/p?b=1&start=0'']
   \<and> build_urls_from_range plain_urllib ''https://h.org/p?q=a%20b'' 0 0 10
       = Inr [''https://h.org/p?q=a+b&start=0'']
   \<and> build_urls_from_range plain_urllib ''HTTPS://H.org/p?x=1'' 0 0 10
       = Inr [''https://H.org/p?x=1&start=0'']"
  by (simp add: plain_defs)

section \<open>Properties of the run\<close>

lemma quiet_refl: "reflp quiet"
  by (simp add: reflp_def quiet_def)

lemma quiet_trans: "transp quiet"
  unfolding transp_def quiet_def
  by (metis (no_types, lifting) Un_iff append.assoc order_trans set_append)

lemma progress_refl: "reflp progress"
  by (simp add: reflp_def progress_def)

lemma progress_trans: "transp progress"
  unfolding transp_def progress_def
  by (metis (no_types, lifting) Un_iff append.assoc set_append)

lemma quiet_progress: "quiet st st' \<Longrightarrow> progress st st'"
  unfolding quiet_def progress_def by (metis order_trans)

lemma quiet_same: "quiet st st"
  by (simp add: quiet_def)

lemma quiet_then: "quiet st st' \<Longrightarrow> quiet st' st'' \<Longrightarrow> quiet st st''"
  using quiet_trans by (meson transpD)

lemma steps_snd: "steps R act \<Longrightarrow> R st (snd (act st))"
  by (simp add: steps_def)

lemma steps_mono: "(\<And>st st'. R st st' \<Longrightarrow> R' st st') \<Longrightarrow> steps R act \<Longrightarrow> steps R' act"
  by (simp add: steps_def)

lemma print_msg_quiet: "steps quiet (print_msg m)"
  by (simp add: steps_def quiet_def print_msg_def log_event_def)

lemma sleep_quiet: "steps quiet (sleep d)"
  by (simp add: steps_def quiet_def sleep_def log_event_def)

lemma driver_call_quiet: "ev \<noteq> Quit \<Longrightarrow> steps quiet (driver_call w ev)"
  by (simp add: steps_def quiet_def driver_call_def log_event_def Let_def split: option.splits)

lemma write_bytes_quiet: "steps quiet (write_bytes p pdf)"
  by (auto simp: steps_def quiet_def write_bytes_def log_event_def)

lemmas quiet_intros =
  steps_bind [OF quiet_trans] steps_if steps_return [OF quiet_refl] steps_raise [OF quiet_refl]
  print_msg_quiet sleep_quiet write_bytes_quiet

lemma find_elements_quiet: "steps quiet (find_elements w sel)"
  unfolding find_elements_def by (intro quiet_intros driver_call_quiet) simp

lemma captcha_markers_quiet: "steps quiet (captcha_markers w)"
  unfolding captcha_markers_def by (intro quiet_intros find_elements_quiet)

lemma captcha_poll_quiet_aux: "quiet st (snd (captcha_poll w end_t st))"
proof (induction w end_t st rule: captcha_poll.induct)
  case (1 w end_t st)
  show ?case
  proof (cases "clock st < end_t")
    case False
    have "quiet st (snd (bind_act (print_msg CaptchaTimedOut) (\<lambda>_. return_act True) st))"
      by (rule steps_snd, intro quiet_intros)
    then show ?thesis using False by (simp add: captcha_poll.simps [of w end_t st])
  next
    case True
    obtain r st' where r: "bind_act (sleep 3) (\<lambda>_. captcha_markers w) st = (r, st')"
      by (cases "bind_act (sleep 3) (\<lambda>_. captcha_markers w) st")
    have "quiet st (snd (bind_act (sleep 3) (\<lambda>_. captcha_markers w) st))"
      by (rule steps_snd, intro quiet_intros captcha_markers_quiet)
    then have q1: "quiet st st'" by (simp add: r)
    show ?thesis
    proof (cases r)
      case (Inl e)
      then show ?thesis using True q1 by (simp add: captcha_poll.simps [of w end_t st] r)
    next
      case (Inr still)
      show ?thesis
      proof (cases still)
        case False
        have "quiet st' (snd (bind_act (print_msg CaptchaCleared) (\<lambda>_. return_act True) st'))"
          by (rule steps_snd, intro quiet_intros)
        then have "quiet st (snd (bind_act (print_msg CaptchaCleared) (\<lambda>_. return_act True) st'))"
          using q1 by (rule quiet_then [rotated])
        then show ?thesis
          using True False Inr by (simp add: captcha_poll.simps [of w end_t st] r)
      next
        case still: True
        have "quiet st' (snd (captcha_poll w end_t st'))"
          using "1.IH" [OF True r [symmetric] Inr] still by simp
        then have "quiet st (snd (captcha_poll w end_t st'))"
          using q1 by (rule quiet_then [rotated])
        then show ?thesis
          using True still Inr by (simp add: captcha_poll.simps [of w end_t st] r)
      qed
    qed
  qed
qed

lemma captcha_poll_quiet: "steps quiet (captcha_poll w end_t)"
  by (simp add: steps_def captcha_poll_quiet_aux)

lemma maybe_wait_for_captcha_try_quiet: "steps quiet (maybe_wait_for_captcha_try w timeout_s)"
  unfolding maybe_wait_for_captcha_try_def
proof (intro quiet_intros captcha_markers_quiet)
  show "steps quiet (\<lambda>st. captcha_poll w (clock st + real_of_int timeout_s) st)"
    unfolding steps_def by (intro allI captcha_poll_quiet_aux)
qed

lemma maybe_wait_for_captcha_quiet:
  assumes "maybe_wait_for_captcha w timeout_s st = (b, st')"
  shows "quiet st st'"
proof -
  have "quiet st (snd (maybe_wait_for_captcha_try w timeout_s st))"
    by (rule steps_snd, intro maybe_wait_for_captcha_try_quiet)
  moreover have "snd (maybe_wait_for_captcha_try w timeout_s st) = st'"
    using assms by (auto simp: maybe_wait_for_captcha_def split: prod.splits sum.splits)
  ultimately show ?thesis by simp
qed

lemma captcha_step_quiet: "steps quiet (captcha_step w a url)"
  unfolding steps_def
proof
  fix st
  obtain b st' where m: "maybe_wait_for_captcha w (captcha_timeout a) st = (b, st')"
    by (cases "maybe_wait_for_captcha w (captcha_timeout a) st")
  have q: "quiet st st'" using m by (rule maybe_wait_for_captcha_quiet)
  have "quiet st' (snd (bind_act (driver_call w (Get url)) (\<lambda>_. return_act ()) st'))"
    by (rule steps_snd, intro quiet_intros driver_call_quiet) simp
  then have "quiet st (snd (bind_act (driver_call w (Get url)) (\<lambda>_. return_act ()) st'))"
    using q by (rule quiet_then [rotated])
  then show "quiet st (snd (captcha_step w a url st))"
    using q by (cases b) (simp_all add: captcha_step_def m quiet_same)
qed

lemma print_one_page_pdf_quiet: "steps quiet (print_one_page_pdf w url out_path width m ms)"
  unfolding print_one_page_pdf_def Let_def
  by (intro quiet_intros driver_call_quiet) simp_all

lemma bind_act_Inr:
  "bind_act m f st = (Inr y, st') \<Longrightarrow> \<exists>x st1. m st = (Inr x, st1) \<and> f x st1 = (Inr y, st')"
  by (auto simp: bind_act_def split: prod.splits sum.splits)

lemma capture_quiet: "steps quiet (capture w a url out_path width)"
  unfolding capture_def
  by (intro quiet_intros driver_call_quiet captcha_step_quiet print_one_page_pdf_quiet) simp

lemma print_one_page_pdf_writes:
  assumes "print_one_page_pdf w url out_path width m ms st = (Inr x, st')"
  shows "out_path \<in> dom (files st')"
proof -
  from assms obtain k st5 where "write_bytes out_path (printed w k) st5 = (Inr x, st')"
    unfolding print_one_page_pdf_def Let_def
    by (blast dest!: bind_act_Inr)
  then show ?thesis by (auto simp: write_bytes_def log_event_def)
qed

lemma capture_writes:
  assumes "capture w a url out_path width st = (Inr x, st')"
  shows "out_path \<in> dom (files st')"
proof -
  from assms obtain st3 where
    "print_one_page_pdf w url out_path width (margin a) 0 st3 = (Inr x, st')"
    unfolding capture_def by (blast dest!: bind_act_Inr)
  then show ?thesis by (rule print_one_page_pdf_writes)
qed

lemma attempt_Inl:
  assumes "attempt w a url out_path width st = (Inl e, st')"
  shows "capture w a url out_path width st = (Inl e, st')" and "quiet st st'"
proof -
  show c: "capture w a url out_path width st = (Inl e, st')"
    using assms
    by (auto simp: attempt_def bind_act_def append_pdf_path_def split: prod.splits sum.splits)
  have "quiet st (snd (capture w a url out_path width st))"
    by (rule steps_snd, rule capture_quiet)
  then show "quiet st st'" by (simp add: c)
qed

lemma attempt_Inr:
  assumes "attempt w a url out_path width st = (Inr x, st')"
  shows "\<exists>s1. capture w a url out_path width st = (Inr (), s1)
           \<and> st' = s1\<lparr>pdf_paths := pdf_paths s1 @ [out_path]\<rparr>
           \<and> quiet st s1 \<and> out_path \<in> dom (files s1)"
proof -
  obtain s1 where c: "capture w a url out_path width st = (Inr (), s1)"
    and s: "st' = s1\<lparr>pdf_paths := pdf_paths s1 @ [out_path]\<rparr>"
    using assms
    by (auto simp: attempt_def bind_act_def append_pdf_path_def split: prod.splits sum.splits)
  have "quiet st (snd (capture w a url out_path width st))"
    by (rule steps_snd, rule capture_quiet)
  then have "quiet st s1" by (simp add: c)
  then show ?thesis using c s capture_writes [OF c] by blast
qed

lemma attempt_progress_aux:
  assumes "attempt w a url out_path width st = (r, st')"
  shows "progress st st'"
proof (cases r)
  case (Inl e)
  then show ?thesis using attempt_Inl(2) assms quiet_progress by blast
next
  case (Inr x)
  then obtain s1 where s: "st' = s1\<lparr>pdf_paths := pdf_paths s1 @ [out_path]\<rparr>"
    and q: "quiet st s1" and d: "out_path \<in> dom (files s1)"
    using attempt_Inr assms by blast
  show ?thesis
    using q d unfolding s quiet_def progress_def by (fastforce simp: subset_iff domIff)
qed

lemma progress_same: "progress st st"
  by (simp add: progress_def)

lemma progress_then: "progress st st' \<Longrightarrow> progress st' st'' \<Longrightarrow> progress st st''"
  using progress_trans by (meson transpD)

lemma attempt_progress: "steps progress (attempt w a url out_path width)"
  unfolding steps_def by (metis attempt_progress_aux prod.collapse)

lemma back_off_quiet: "steps quiet (back_off k e b)"
  unfolding back_off_def by (intro quiet_intros)

lemma back_off_eq:
  "0 \<le> b \<Longrightarrow> back_off k e b st =
     (Inr (), st\<lparr>clock := clock st + of_int b,
                 trace := trace st @ [Print (AttemptFailed k e b), Sleep (of_int b)]\<rparr>)"
  by (simp add: back_off_def bind_act_def print_msg_def sleep_def log_event_def)

lemma retry_loop_progress_aux:
  "progress st (snd (retry_loop w a url out_path width attempts backoff st))"
proof (induction w a url out_path width attempts backoff st rule: retry_loop.induct)
  case (1 w a url out_path width attempts backoff st)
  show ?case
  proof (cases "attempts < 3")
    case False
    then show ?thesis
      by (simp add: retry_loop.simps [of w a url out_path width attempts backoff st] progress_same)
  next
    case True
    obtain r st' where r: "attempt w a url out_path width st = (r, st')"
      by (cases "attempt w a url out_path width st")
    have p1: "progress st st'" using r by (rule attempt_progress_aux)
    show ?thesis
    proof (cases r)
      case (Inr x)
      then show ?thesis
        using True p1
        by (simp add: retry_loop.simps [of w a url out_path width attempts backoff st] r)
    next
      case (Inl e)
      show ?thesis
      proof (cases "e = WebDriverException")
        case False
        then show ?thesis
          using True p1 Inl
          by (simp add: retry_loop.simps [of w a url out_path width attempts backoff st] r)
      next
        case wde: True
        obtain r2 st2 where b: "back_off (attempts + 1) e backoff st' = (r2, st2)"
          by (cases "back_off (attempts + 1) e backoff st'")
        have "quiet st' (snd (back_off (attempts + 1) e backoff st'))"
          by (rule steps_snd, rule back_off_quiet)
        then have "progress st' st2" using b by (simp add: quiet_progress)
        then have p2: "progress st st2" using p1 by (rule progress_then [rotated])
        show ?thesis
        proof (cases r2)
          case e2: (Inl e')
          then show ?thesis
            using True p2 Inl wde b
            by (simp add: retry_loop.simps [of w a url out_path width attempts backoff st] r)
        next
          case ok: (Inr u)
          have "progress st2 (snd (retry_loop w a url out_path width (attempts + 1) (backoff * 2) st2))"
            using "1.IH" [OF True r [symmetric] Inl wde b [symmetric] ok] .
          then have "progress st (snd (retry_loop w a url out_path width (attempts + 1) (backoff * 2) st2))"
            using p2 by (rule progress_then [rotated])
          then show ?thesis
            using True Inl wde ok b
            by (simp add: retry_loop.simps [of w a url out_path width attempts backoff st] r)
        qed
      qed
    qed
  qed
qed

lemma retry_loop_progress: "steps progress (retry_loop w a url out_path width attempts backoff)"
  by (simp add: steps_def retry_loop_progress_aux)

lemmas progress_intros =
  steps_bind [OF progress_trans] steps_if steps_return [OF progress_refl]
  steps_raise [OF progress_refl]
  steps_mono [of quiet progress, OF quiet_progress]

lemma cooldown_quiet: "steps quiet (cooldown a i n)"
  unfolding cooldown_def by (intro quiet_intros)

lemma process_url_progress: "steps progress (process_url w a width n i url)"
  unfolding process_url_def Let_def
  by (intro steps_bind [OF progress_trans] retry_loop_progress
      steps_mono [of quiet progress, OF quiet_progress] print_msg_quiet sleep_quiet cooldown_quiet)

lemma process_urls_progress: "steps progress (process_urls w a width n i urls)"
proof (induction urls arbitrary: i)
  case Nil
  then show ?case by (simp add: steps_return progress_refl)
next
  case (Cons url urls)
  show ?case
    unfolding process_urls.simps
    by (intro steps_bind [OF progress_trans] process_url_progress Cons.IH)
qed

lemma same_files_refl: "reflp same_files" and same_files_trans: "transp same_files"
  by (simp_all add: reflp_def transp_def same_files_def)

lemma print_msg_same_files: "steps same_files (print_msg m)"
  by (simp add: steps_def same_files_def print_msg_def log_event_def)

lemma sleep_same_files: "steps same_files (sleep d)"
  by (simp add: steps_def same_files_def sleep_def log_event_def)

lemma driver_call_same_files: "steps same_files (driver_call w ev)"
  by (simp add: steps_def same_files_def driver_call_def log_event_def Let_def split: option.splits)

lemmas same_files_intros =
  steps_bind [OF same_files_trans] steps_if steps_return [OF same_files_refl]
  print_msg_same_files sleep_same_files driver_call_same_files

lemma find_elements_same_files: "steps same_files (find_elements w sel)"
  unfolding find_elements_def by (intro same_files_intros)

lemma captcha_markers_same_files: "steps same_files (captcha_markers w)"
  unfolding captcha_markers_def by (intro same_files_intros find_elements_same_files)

lemma captcha_poll_same_files: "files (snd (captcha_poll w end_t st)) = files st"
proof (induction w end_t st rule: captcha_poll.induct)
  case (1 w end_t st)
  show ?case
  proof (cases "clock st < end_t")
    case False
    then show ?thesis
      by (simp add: captcha_poll.simps [of w end_t st] bind_act_def print_msg_def return_act_def
          log_event_def)
  next
    case True
    obtain r st' where r: "bind_act (sleep 3) (\<lambda>_. captcha_markers w) st = (r, st')"
      by (cases "bind_act (sleep 3) (\<lambda>_. captcha_markers w) st")
    have "same_files st (snd (bind_act (sleep 3) (\<lambda>_. captcha_markers w) st))"
      by (rule steps_snd, intro same_files_intros captcha_markers_same_files)
    then have q1: "files st' = files st" by (simp add: r same_files_def)
    show ?thesis
    proof (cases r)
      case (Inl e)
      then show ?thesis using True q1 by (simp add: captcha_poll.simps [of w end_t st] r)
    next
      case (Inr still)
      show ?thesis
      proof (cases still)
        case False
        have "files (snd (bind_act (print_msg CaptchaCleared) (\<lambda>_. return_act True) st')) = files st'"
          by (simp add: bind_act_def print_msg_def return_act_def log_event_def)
        then show ?thesis
          using True False Inr q1 by (simp add: captcha_poll.simps [of w end_t st] r)
      next
        case still: True
        have "files (snd (captcha_poll w end_t st')) = files st'"
          using "1.IH" [OF True r [symmetric] Inr] still by simp
        then show ?thesis
          using True still Inr q1 by (simp add: captcha_poll.simps [of w end_t st] r)
      qed
    qed
  qed
qed

lemma maybe_wait_for_captcha_try_same_files:
  "steps same_files (maybe_wait_for_captcha_try w timeout_s)"
  unfolding maybe_wait_for_captcha_try_def
proof (intro same_files_intros captcha_markers_same_files)
  show "steps same_files (\<lambda>st. captcha_poll w (clock st + real_of_int timeout_s) st)"
    unfolding steps_def same_files_def by (intro allI captcha_poll_same_files)
qed

lemma maybe_wait_for_captcha_same_files:
  assumes "maybe_wait_for_captcha w timeout_s st = (b, st')"
  shows "files st' = files st"
proof -
  have "same_files st (snd (maybe_wait_for_captcha_try w timeout_s st))"
    by (rule steps_snd, intro maybe_wait_for_captcha_try_same_files)
  moreover have "snd (maybe_wait_for_captcha_try w timeout_s st) = st'"
    using assms by (auto simp: maybe_wait_for_captcha_def split: prod.splits sum.splits)
  ultimately show ?thesis by (simp add: same_files_def)
qed

lemma captcha_step_same_files: "steps same_files (captcha_step w a url)"
  unfolding steps_def
proof
  fix st
  obtain b st' where m: "maybe_wait_for_captcha w (captcha_timeout a) st = (b, st')"
    by (cases "maybe_wait_for_captcha w (captcha_timeout a) st")
  have q: "files st' = files st" using m by (rule maybe_wait_for_captcha_same_files)
  have "same_files st' (snd (bind_act (driver_call w (Get url)) (\<lambda>_. return_act ()) st'))"
    by (rule steps_snd, intro same_files_intros)
  then have "same_files st (snd (bind_act (driver_call w (Get url)) (\<lambda>_. return_act ()) st'))"
    using q by (simp add: same_files_def)
  then show "same_files st (snd (captcha_step w a url st))"
    using q by (cases b) (simp_all add: captcha_step_def m same_files_def)
qed

lemma bind_act_Inl:
  "bind_act m f st = (Inl e, st') \<Longrightarrow>
     m st = (Inl e, st') \<or> (\<exists>x st1. m st = (Inr x, st1) \<and> f x st1 = (Inl e, st'))"
  by (auto simp: bind_act_def split: prod.splits sum.splits)

lemma bind_act_Inl_same_files:
  assumes "bind_act m f st = (Inl e, st')" and "steps same_files m"
    and "\<And>x st1. f x st1 = (Inl e, st') \<Longrightarrow> files st' = files st1"
  shows "files st' = files st"
proof -
  from bind_act_Inl [OF assms(1)] show ?thesis
  proof
    assume "m st = (Inl e, st')"
    from stepsD [OF assms(2) this] show ?thesis by (simp add: same_files_def)
  next
    assume "\<exists>x st1. m st = (Inr x, st1) \<and> f x st1 = (Inl e, st')"
    then obtain x st1 where 1: "m st = (Inr x, st1)" and 2: "f x st1 = (Inl e, st')" by blast
    from stepsD [OF assms(2) 1] have "files st1 = files st" by (simp add: same_files_def)
    then show ?thesis using assms(3) [OF 2] by simp
  qed
qed

lemma write_bytes_Inr: "write_bytes p pdf st \<noteq> (Inl e, st')"
  by (simp add: write_bytes_def)

lemma print_one_page_pdf_Inl_same_files:
  assumes "print_one_page_pdf w url out_path width m ms st = (Inl e, st')"
  shows "files st' = files st"
  using assms unfolding print_one_page_pdf_def Let_def
  by (elim bind_act_Inl_same_files) (simp_all add: same_files_intros write_bytes_Inr)

lemma capture_Inl_same_files:
  assumes "capture w a url out_path width st = (Inl e, st')"
  shows "files st' = files st"
  using assms unfolding capture_def
  by (elim bind_act_Inl_same_files)
    (simp_all add: same_files_intros captcha_step_same_files print_one_page_pdf_Inl_same_files)

lemma attempt_Inl_same_files:
  assumes "attempt w a url out_path width st = (Inl e, st')"
  shows "files st' = files st"
  using attempt_Inl(1) [OF assms] by (rule capture_Inl_same_files)

lemma retry_loop_exhausted:
  "retry_loop w a url out_path width 3 backoff st = (Inr 3, st)"
  by (simp add: retry_loop.simps [of w a url out_path width 3 backoff st])

lemma retry_loop_bound:
  "retry_loop w a url out_path width attempts backoff st = (Inr k, st') \<Longrightarrow>
     attempts \<le> k \<and> (attempts < 3 \<longrightarrow> attempts < k \<and> k \<le> 3)"
proof (induction w a url out_path width attempts backoff st rule: retry_loop.induct)
  case (1 w a url out_path width attempts backoff st)
  show ?case
  proof (cases "attempts < 3")
    case False
    then show ?thesis
      using "1.prems" by (simp add: retry_loop.simps [of w a url out_path width attempts backoff st])
  next
    case True
    obtain r s1 where r: "attempt w a url out_path width st = (r, s1)"
      by (cases "attempt w a url out_path width st")
    show ?thesis
    proof (cases r)
      case (Inr x)
      then show ?thesis
        using True "1.prems"
        by (auto simp: retry_loop.simps [of w a url out_path width attempts backoff st] r)
    next
      case (Inl e)
      obtain r2 s2 where b: "back_off (attempts + 1) e backoff s1 = (r2, s2)"
        by (cases "back_off (attempts + 1) e backoff s1")
      from "1.prems" True Inl b
      have wde: "e = WebDriverException" and "\<exists>u. r2 = Inr u"
        and rec: "retry_loop w a url out_path width (attempts + 1) (backoff * 2) s2 = (Inr k, st')"
        by (auto simp: retry_loop.simps [of w a url out_path width attempts backoff st] r
            split: if_splits sum.splits)
      then obtain u where ok: "r2 = Inr u" by blast
      have "attempts + 1 \<le> k \<and> (attempts + 1 < 3 \<longrightarrow> attempts + 1 < k \<and> k \<le> 3)"
        using "1.IH" [OF True r [symmetric] Inl wde b [symmetric] ok rec] .
      moreover have "k = 3" if "\<not> attempts + 1 < 3"
      proof -
        have "attempts + 1 = 3" using that True by simp
        then show ?thesis using rec by (simp only: retry_loop_exhausted) simp
      qed
      ultimately show ?thesis using True by auto
    qed
  qed
qed

lemma retry_loop_fail:
  assumes "attempts < 3" and "0 \<le> backoff"
    and "attempt w a url out_path width st = (Inl WebDriverException, s1)"
  shows "retry_loop w a url out_path width attempts backoff st
           = retry_loop w a url out_path width (attempts + 1) (backoff * 2)
               (backed_off (attempts + 1) backoff s1)"
  using assms
  by (simp add: retry_loop.simps [of w a url out_path width attempts backoff st]
      back_off_eq backed_off_def)

lemma retry_loop_success:
  assumes "attempts < 3"
    and "attempt w a url out_path width st = (Inr x, s1)"
  shows "retry_loop w a url out_path width attempts backoff st = (Inr (attempts + 1), s1)"
  using assms
  by (simp add: retry_loop.simps [of w a url out_path width attempts backoff st])

lemma retry_arith:
  "(0::nat) + 1 = 1" "(1::nat) + 1 = 2" "(2::nat) + 1 = 3"
  "(3::int) * 2 = 6" "(6::int) * 2 = 12" "(12::int) * 2 = 24"
  by simp_all

lemma retry_loop_fail_first:
  assumes "attempt w a url out_path width st = (Inl WebDriverException, s1)"
  shows "retry_loop w a url out_path width 0 3 st
           = retry_loop w a url out_path width 1 6 (backed_off 1 3 s1)"
proof -
  have "retry_loop w a url out_path width 0 3 st
          = retry_loop w a url out_path width (0 + 1) (3 * 2) (backed_off (0 + 1) 3 s1)"
    by (rule retry_loop_fail) (use assms in simp_all)
  then show ?thesis by (simp only: retry_arith)
qed

lemma retry_loop_fail_second:
  assumes "attempt w a url out_path width st = (Inl WebDriverException, s1)"
  shows "retry_loop w a url out_path width 1 6 st
           = retry_loop w a url out_path width 2 12 (backed_off 2 6 s1)"
proof -
  have "retry_loop w a url out_path width 1 6 st
          = retry_loop w a url out_path width (1 + 1) (6 * 2) (backed_off (1 + 1) 6 s1)"
    by (rule retry_loop_fail) (use assms in simp_all)
  then show ?thesis by (simp only: retry_arith)
qed

lemma retry_loop_fail_third:
  assumes "attempt w a url out_path width st = (Inl WebDriverException, s1)"
  shows "retry_loop w a url out_path width 2 12 st
           = retry_loop w a url out_path width 3 24 (backed_off 3 12 s1)"
proof -
  have "retry_loop w a url out_path width 2 12 st
          = retry_loop w a url out_path width (2 + 1) (12 * 2) (backed_off (2 + 1) 12 s1)"
    by (rule retry_loop_fail) (use assms in simp_all)
  then show ?thesis by (simp only: retry_arith)
qed

lemma retry_loop_success_second:
  assumes "attempt w a url out_path width st = (Inr x, s1)"
  shows "retry_loop w a url out_path width 1 6 st = (Inr 2, s1)"
proof -
  have "retry_loop w a url out_path width 1 6 st = (Inr (1 + 1), s1)"
    by (rule retry_loop_success [OF _ assms]) simp
  then show ?thesis by (simp only: retry_arith)
qed

lemma retry_loop_success_first:
  assumes "attempt w a url out_path width st = (Inr x, s1)"
  shows "retry_loop w a url out_path width 0 3 st = (Inr 1, s1)"
proof -
  have "retry_loop w a url out_path width 0 3 st = (Inr (0 + 1), s1)"
    by (rule retry_loop_success [OF _ assms]) simp
  then show ?thesis by (simp only: retry_arith)
qed

lemma retry_loop_success_third:
  assumes "attempt w a url out_path width st = (Inr x, s1)"
  shows "retry_loop w a url out_path width 2 12 st = (Inr 3, s1)"
proof -
  have "retry_loop w a url out_path width 2 12 st = (Inr (2 + 1), s1)"
    by (rule retry_loop_success [OF _ assms]) simp
  then show ?thesis by (simp only: retry_arith)
qed

lemma retry_loop_other:
  assumes "attempts < 3" and "attempt w a url out_path width st = (Inl e, s1)"
    and "e \<noteq> WebDriverException"
  shows "retry_loop w a url out_path width attempts backoff st = (Inl e, s1)"
  using assms
  by (simp add: retry_loop.simps [of w a url out_path width attempts backoff st])

lemma retry_loop_unrolled:
  "retry_loop w a url out_path width 0 3 st = three_attempts w a url out_path width st"
proof -
  obtain r1 s1 where a1: "attempt w a url out_path width st = (r1, s1)"
    by (cases "attempt w a url out_path width st")
  obtain r2 s2 where a2: "attempt w a url out_path width (backed_off 1 3 s1) = (r2, s2)"
    by (cases "attempt w a url out_path width (backed_off 1 3 s1)")
  obtain r3 s3 where a3: "attempt w a url out_path width (backed_off 2 6 s2) = (r3, s3)"
    by (cases "attempt w a url out_path width (backed_off 2 6 s2)")
  show ?thesis
  proof (cases r1)
    case (Inr x)
    then show ?thesis
      using retry_loop_success_first [of w a url out_path width st x s1] a1
      by (simp add: three_attempts_def)
  next
    case e1: (Inl e1)
    show ?thesis
    proof (cases "e1 = WebDriverException")
      case False
      then show ?thesis
        using retry_loop_other [of 0 w a url out_path width st e1 s1 3] a1 e1
        by (simp add: three_attempts_def)
    next
      case w1: True
      have step1: "retry_loop w a url out_path width 0 3 st
                     = retry_loop w a url out_path width 1 6 (backed_off 1 3 s1)"
        using a1 e1 w1 by (intro retry_loop_fail_first) simp
      show ?thesis
      proof (cases r2)
        case (Inr x)
        then show ?thesis
          using retry_loop_success_second [of w a url out_path width "backed_off 1 3 s1" x s2]
            a1 a2 e1 w1 step1
          by (simp add: three_attempts_def)
      next
        case e2: (Inl e2)
        show ?thesis
        proof (cases "e2 = WebDriverException")
          case False
          then show ?thesis
            using retry_loop_other [of 1 w a url out_path width "backed_off 1 3 s1" e2 s2 6]
              a1 a2 e1 w1 e2 step1
            by (simp add: three_attempts_def)
        next
          case w2: True
          have step2: "retry_loop w a url out_path width 1 6 (backed_off 1 3 s1)
                         = retry_loop w a url out_path width 2 12 (backed_off 2 6 s2)"
            using a2 e2 w2 by (intro retry_loop_fail_second) simp
          show ?thesis
          proof (cases r3)
            case (Inr x)
            then show ?thesis
              using retry_loop_success_third [of w a url out_path width "backed_off 2 6 s2" x s3]
                a1 a2 a3 e1 w1 e2 w2 step1 step2
              by (simp add: three_attempts_def)
          next
            case e3: (Inl e3)
            show ?thesis
            proof (cases "e3 = WebDriverException")
              case False
              then show ?thesis
                using retry_loop_other [of 2 w a url out_path width "backed_off 2 6 s2" e3 s3 12]
                  a1 a2 a3 e1 w1 e2 w2 e3 step1 step2
                by (simp add: three_attempts_def)
            next
              case w3: True
              have "retry_loop w a url out_path width 2 12 (backed_off 2 6 s2)
                      = retry_loop w a url out_path width 3 24 (backed_off 3 12 s3)"
                using a3 e3 w3 by (intro retry_loop_fail_third) simp
              then show ?thesis
                using a1 a2 a3 e1 w1 e2 w2 e3 w3 step1 step2
                by (simp add: three_attempts_def retry_loop_exhausted)
            qed
          qed
        qed
      qed
    qed
  qed
qed

lemma process_urls_continue:
  assumes "0 \<le> min_wait a + (max_wait a - min_wait a) * random w i"
    and "retry_loop w a url (out_dir a @ ''/'' @ page_name i url) width 0 3
           (st\<lparr>clock := clock st + (min_wait a + (max_wait a - min_wait a) * random w i),
               trace := trace st @ [Print (Printing i n (page_name i url)),
                 Sleep (min_wait a + (max_wait a - min_wait a) * random w i)]\<rparr>) = (Inr k, st')"
  shows "process_urls w a width n i (url # rest) st
           = bind_act (cooldown a i n) (\<lambda>_. process_urls w a width n (Suc i) rest) st'"
  using assms
  by (simp add: process_url_def Let_def bind_act_def print_msg_def sleep_def log_event_def)

text \<open>
  C1. The retry loop of one URL, started with \<open>attempts = 0\<close> and \<open>backoff = 3\<close>:
  \<^item> when it ends without an exception, it has made at least 1 and at most 3 attempts;
  \<^item> when three attempts in a row fail with a \<open>WebDriverException\<close>, each is
    followed by the failure message and a sleep of 3, then 6, then 12 seconds; the
    loop ends after the third with \<open>attempts = 3\<close>, without an exception; the
    list of captured pages and the files are what they were;
  \<^item> when the first attempt fails so and the second succeeds, the loop ends there with
    \<open>attempts = 2\<close>, the list of captured pages has grown by this URL's path,
    once, and the file of that path is written;
  \<^item> whenever the loop ends without an exception (exhausted or not), the run goes on
    with the cooldown check and then the remaining URLs;
  \<^item> on every path, also when an exception ends it, the loop is \<open>three_attempts\<close>:
    at most three attempts, a fourth never.
\<close>

theorem retry_loop_policy:
  "(retry_loop w a url out_path width 0 3 st = (Inr k, st') \<longrightarrow> 1 \<le> k \<and> k \<le> 3)
   \<and> (attempt w a url out_path width st = (Inl WebDriverException, s1) \<longrightarrow>
       attempt w a url out_path width (backed_off 1 3 s1) = (Inl WebDriverException, s2) \<longrightarrow>
       attempt w a url out_path width (backed_off 2 6 s2) = (Inl WebDriverException, s3) \<longrightarrow>
         retry_loop w a url out_path width 0 3 st = (Inr 3, backed_off 3 12 s3)
         \<and> pdf_paths (backed_off 3 12 s3) = pdf_paths st
         \<and> files (backed_off 3 12 s3) = files st
         \<and> trace (backed_off 1 3 s1)
             = trace s1 @ [Print (AttemptFailed 1 WebDriverException 3), Sleep 3]
         \<and> trace (backed_off 2 6 s2)
             = trace s2 @ [Print (AttemptFailed 2 WebDriverException 6), Sleep 6]
         \<and> trace (backed_off 3 12 s3)
             = trace s3 @ [Print (AttemptFailed 3 WebDriverException 12), Sleep 12])
   \<and> (attempt w a url out_path width st = (Inl WebDriverException, t1) \<longrightarrow>
       attempt w a url out_path width (backed_off 1 3 t1) = (Inr (), t2) \<longrightarrow>
         retry_loop w a url out_path width 0 3 st = (Inr 2, t2)
         \<and> pdf_paths t2 = pdf_paths st @ [out_path]
         \<and> out_path \<in> dom (files t2))
   \<and> (0 \<le> min_wait a + (max_wait a - min_wait a) * random w i \<longrightarrow>
       retry_loop w a url (out_dir a @ ''/'' @ page_name i url) width 0 3
           (st\<lparr>clock := clock st + (min_wait a + (max_wait a - min_wait a) * random w i),
               trace := trace st @ [Print (Printing i n (page_name i url)),
                 Sleep (min_wait a + (max_wait a - min_wait a) * random w i)]\<rparr>) = (Inr k, st') \<longrightarrow>
         process_urls w a width n i (url # rest) st
           = bind_act (cooldown a i n) (\<lambda>_. process_urls w a width n (Suc i) rest) st')
   \<and> retry_loop w a url out_path width 0 3 st = three_attempts w a url out_path width st"
proof -
  have bound: "1 \<le> k \<and> k \<le> 3"
    if "retry_loop w a url out_path width 0 3 st = (Inr k, st')"
    using retry_loop_bound [OF that] by simp
  have three: "retry_loop w a url out_path width 0 3 st = (Inr 3, backed_off 3 12 s3)
      \<and> pdf_paths (backed_off 3 12 s3) = pdf_paths st
      \<and> files (backed_off 3 12 s3) = files st"
    if f1: "attempt w a url out_path width st = (Inl WebDriverException, s1)"
      and f2: "attempt w a url out_path width (backed_off 1 3 s1) = (Inl WebDriverException, s2)"
      and f3: "attempt w a url out_path width (backed_off 2 6 s2) = (Inl WebDriverException, s3)"
  proof -
    have "retry_loop w a url out_path width 0 3 st
            = retry_loop w a url out_path width 1 6 (backed_off 1 3 s1)"
      using f1 by (rule retry_loop_fail_first)
    also have "\<dots> = retry_loop w a url out_path width 2 12 (backed_off 2 6 s2)"
      using f2 by (rule retry_loop_fail_second)
    also have "\<dots> = retry_loop w a url out_path width 3 24 (backed_off 3 12 s3)"
      using f3 by (rule retry_loop_fail_third)
    finally have r: "retry_loop w a url out_path width 0 3 st = (Inr 3, backed_off 3 12 s3)"
      by (simp add: retry_loop_exhausted)
    have "pdf_paths s1 = pdf_paths st"
      using attempt_Inl(2) [OF f1] by (simp add: quiet_def)
    moreover have "pdf_paths s2 = pdf_paths (backed_off 1 3 s1)"
      using attempt_Inl(2) [OF f2] by (simp add: quiet_def)
    moreover have "pdf_paths s3 = pdf_paths (backed_off 2 6 s2)"
      using attempt_Inl(2) [OF f3] by (simp add: quiet_def)
    ultimately have p: "pdf_paths (backed_off 3 12 s3) = pdf_paths st"
      by (simp add: backed_off_def)
    have "files (backed_off 3 12 s3) = files st"
      using attempt_Inl_same_files [OF f1] attempt_Inl_same_files [OF f2]
        attempt_Inl_same_files [OF f3]
      by (simp add: backed_off_def)
    then show ?thesis using r p by simp
  qed
  have two: "retry_loop w a url out_path width 0 3 st = (Inr 2, t2)
      \<and> pdf_paths t2 = pdf_paths st @ [out_path]
      \<and> out_path \<in> dom (files t2)"
    if f1: "attempt w a url out_path width st = (Inl WebDriverException, t1)"
      and ok: "attempt w a url out_path width (backed_off 1 3 t1) = (Inr (), t2)"
  proof -
    have "retry_loop w a url out_path width 0 3 st
            = retry_loop w a url out_path width 1 6 (backed_off 1 3 t1)"
      using f1 by (rule retry_loop_fail_first)
    also have "\<dots> = (Inr 2, t2)"
      using ok by (rule retry_loop_success_second)
    finally have r: "retry_loop w a url out_path width 0 3 st = (Inr 2, t2)" .
    have p1: "pdf_paths t1 = pdf_paths st"
      using attempt_Inl(2) [OF f1] by (simp add: quiet_def)
    obtain u where u: "t2 = u\<lparr>pdf_paths := pdf_paths u @ [out_path]\<rparr>"
      and q: "quiet (backed_off 1 3 t1) u" and d: "out_path \<in> dom (files u)"
      using attempt_Inr [OF ok] by blast
    have "pdf_paths t2 = pdf_paths st @ [out_path]"
      using u q p1 by (simp add: quiet_def backed_off_def)
    moreover have "out_path \<in> dom (files t2)"
      using u d by simp
    ultimately show ?thesis using r by simp
  qed
  show ?thesis
    using bound three two process_urls_continue [of a w i url width st n k st' rest]
      retry_loop_unrolled [of w a url out_path width st]
    by (simp add: backed_off_def)
qed

lemmas run_defs =
  attempt_def capture_def captcha_step_def print_one_page_pdf_def append_pdf_path_def
  bind_act_def return_act_def driver_call_def sleep_def write_bytes_def log_event_def
  print_msg_def compute_full_height_inches_def Let_def

theorem retry_loop_policy_witness:
  "attempt (raising [(0, WebDriverException), (1, WebDriverException), (2, WebDriverException)]) args0 ''https://a.b/c'' ''pdf_pages/001_a.b_c.pdf'' 8.27 state0
     = (Inl WebDriverException, state0\<lparr>calls := 1, trace := [Get ''https://a.b/c'']\<rparr>)
   \<and> retry_loop (raising [(0, WebDriverException), (1, WebDriverException), (2, WebDriverException)]) args0 ''https://a.b/c'' ''pdf_pages/001_a.b_c.pdf'' 8.27 0 3 state0
     = (Inr 3,
        \<lparr>clock = 21, calls = 3,
         trace = [Get ''https://a.b/c'', Print (AttemptFailed 1 WebDriverException 3), Sleep 3,
                  Get ''https://a.b/c'', Print (AttemptFailed 2 WebDriverException 6), Sleep 6,
                  Get ''https://a.b/c'', Print (AttemptFailed 3 WebDriverException 12), Sleep 12],
         files = Map.empty, pdf_paths = []\<rparr>)
   \<and> retry_loop (raising [(0, WebDriverException)]) args0 ''https://a.b/c'' ''pdf_pages/001_a.b_c.pdf'' 8.27 0 3 state0
     = (Inr 2,
        \<lparr>clock = 4.5, calls = 6,
         trace = [Get ''https://a.b/c'', Print (AttemptFailed 1 WebDriverException 3), Sleep 3,
                  Get ''https://a.b/c'', Sleep 1.5, Get ''https://a.b/c'', Sleep 0,
                  SetEmulatedMedia, ExecuteScript, PrintToPDF 8.27 10.8 0.4,
                  WriteBytes ''pdf_pages/001_a.b_c.pdf''],
         files = [''pdf_pages/001_a.b_c.pdf'' \<mapsto> [5]],
         pdf_paths = [''pdf_pages/001_a.b_c.pdf'']\<rparr>)"
proof -
  let ?url = "''https://a.b/c''" and ?out = "''pdf_pages/001_a.b_c.pdf''"
  let ?s1 = "state0\<lparr>calls := 1, trace := [Get ?url]\<rparr>"
  let ?s2 = "(backed_off 1 3 ?s1)\<lparr>calls := 2, trace := trace (backed_off 1 3 ?s1) @ [Get ?url]\<rparr>"
  let ?s3 = "(backed_off 2 6 ?s2)\<lparr>calls := 3, trace := trace (backed_off 2 6 ?s2) @ [Get ?url]\<rparr>"
  have f1: "attempt (raising [(0, WebDriverException), (1, WebDriverException), (2, WebDriverException)]) args0 ?url ?out 8.27 state0 = (Inl WebDriverException, ?s1)"
    by (simp add: run_defs raising_def world0_def args0_def state0_def)
  have f2: "attempt (raising [(0, WebDriverException), (1, WebDriverException), (2, WebDriverException)]) args0 ?url ?out 8.27 (backed_off 1 3 ?s1)
              = (Inl WebDriverException, ?s2)"
    by (simp add: run_defs raising_def world0_def args0_def state0_def backed_off_def)
  have f3: "attempt (raising [(0, WebDriverException), (1, WebDriverException), (2, WebDriverException)]) args0 ?url ?out 8.27 (backed_off 2 6 ?s2)
              = (Inl WebDriverException, ?s3)"
    by (simp add: run_defs raising_def world0_def args0_def state0_def backed_off_def)
  have three: "retry_loop (raising [(0, WebDriverException), (1, WebDriverException), (2, WebDriverException)]) args0 ?url ?out 8.27 0 3 state0
                 = (Inr 3, backed_off 3 12 ?s3)"
    using retry_loop_policy [of "raising [(0, WebDriverException), (1, WebDriverException), (2, WebDriverException)]" args0 ?url ?out "8.27" state0 _ _ ?s1 ?s2 ?s3]
      f1 f2 f3 by blast
  let ?t1 = "state0\<lparr>calls := 1, trace := [Get ?url]\<rparr>"
  let ?t2 = "\<lparr>clock = 4.5, calls = 6,
         trace = [Get ''https://a.b/c'', Print (AttemptFailed 1 WebDriverException 3), Sleep 3,
                  Get ''https://a.b/c'', Sleep 1.5, Get ''https://a.b/c'', Sleep 0,
                  SetEmulatedMedia, ExecuteScript, PrintToPDF 8.27 10.8 0.4,
                  WriteBytes ''pdf_pages/001_a.b_c.pdf''],
         files = [''pdf_pages/001_a.b_c.pdf'' \<mapsto> [5::nat]],
         pdf_paths = [''pdf_pages/001_a.b_c.pdf'']\<rparr>"
  have g1: "attempt (raising [(0, WebDriverException)]) args0 ?url ?out 8.27 state0 = (Inl WebDriverException, ?t1)"
    by (simp add: run_defs raising_def world0_def args0_def state0_def)
  have g2: "attempt (raising [(0, WebDriverException)]) args0 ?url ?out 8.27 (backed_off 1 3 ?t1) = (Inr (), ?t2)"
    by (simp add: run_defs raising_def world0_def args0_def state0_def backed_off_def
        eval_nat_numeral)
  have two: "retry_loop (raising [(0, WebDriverException)]) args0 ?url ?out 8.27 0 3 state0 = (Inr 2, ?t2)"
    using retry_loop_policy [of "raising [(0, WebDriverException)]" args0 ?url ?out "8.27" state0 _ _ _ _ _ ?t1 ?t2]
      g1 g2 by blast
  have e: "backed_off 3 12 ?s3 = \<lparr>clock = 21, calls = 3,
         trace = [Get ''https://a.b/c'', Print (AttemptFailed 1 WebDriverException 3), Sleep 3,
                  Get ''https://a.b/c'', Print (AttemptFailed 2 WebDriverException 6), Sleep 6,
                  Get ''https://a.b/c'', Print (AttemptFailed 3 WebDriverException 12), Sleep 12],
         files = Map.empty, pdf_paths = []\<rparr>"
    by (simp add: backed_off_def state0_def)
  show ?thesis using f1 three two unfolding e by simp
qed

lemma driver_call_Quit_trace:
  "driver_call w Quit st = (q, st') \<Longrightarrow> trace st' = trace st @ [Quit] \<and> files st' = files st
     \<and> pdf_paths st' = pdf_paths st"
  by (auto simp: driver_call_def log_event_def Let_def split: option.splits)

lemma driver_call_StartBrowser_trace:
  "driver_call w StartBrowser (log_event (Mkdir d) st) = (q, st') \<Longrightarrow>
     trace st' = trace st @ [Mkdir d, StartBrowser]"
  by (auto simp: driver_call_def log_event_def Let_def split: option.splits)

lemma finish_trace:
  "\<exists>final_events. trace (snd (finish a st)) = trace st @ final_events
     \<and> set final_events \<subseteq> {Print NoPdfs, WriteMerged (merged a), Print (Done (merged a)),
                              Print (IndividualPdfs (out_dir a))}"
proof (cases "pdf_paths st = []")
  case True
  then have "trace (snd (finish a st)) = trace st @ [Print NoPdfs]"
    by (simp add: finish_def log_event_def)
  then show ?thesis by auto
next
  case False
  show ?thesis
  proof (cases "merge_pdfs (files st) (pdf_paths st) (merged a)")
    case (Inl e)
    then have "trace (snd (finish a st)) = trace st @ []"
      using False by (simp add: finish_def)
    then show ?thesis by (metis empty_set empty_subsetI)
  next
    case (Inr fs)
    then have "trace (snd (finish a st)) = trace st @ [WriteMerged (merged a), Print (Done (merged a)),
        Print (IndividualPdfs (out_dir a))]"
      using False by (simp add: finish_def log_event_def)
    then show ?thesis by auto
  qed
qed

lemma main_started:
  assumes "urls \<noteq> []"
    and "driver_call w StartBrowser (log_event (Mkdir (out_dir a)) st) = (Inr k, st0)"
    and "process_urls w a (if letter a then 8.5 else 8.27) (length urls) 1 urls
           (st0\<lparr>pdf_paths := []\<rparr>) = (r, st1)"
    and "driver_call w Quit st1 = (q, st2)"
  shows "main w a urls st =
           (case q of
              Inl e \<Rightarrow> (Raised e, st2)
            | Inr _ \<Rightarrow> (case r of Inl e \<Rightarrow> (Raised e, st2) | Inr _ \<Rightarrow> finish a st2))"
  using assms by (simp add: main_def Let_def)

lemma process_urls_loop_events:
  assumes "process_urls w a width n i urls st = (r, st1)"
  shows "\<exists>evs. trace st1 = trace st @ evs \<and> Quit \<notin> set evs"
    and "set (pdf_paths st) \<subseteq> dom (files st) \<Longrightarrow> set (pdf_paths st1) \<subseteq> dom (files st1)"
proof -
  have "progress st (snd (process_urls w a width n i urls st))"
    by (rule steps_snd, rule process_urls_progress)
  then have p: "progress st st1" by (simp add: assms)
  show "\<exists>evs. trace st1 = trace st @ evs \<and> Quit \<notin> set evs"
    using p by (simp add: progress_def)
  show "set (pdf_paths st1) \<subseteq> dom (files st1)" if "set (pdf_paths st) \<subseteq> dom (files st)"
    using p that by (simp add: progress_def)
qed

text \<open>
  C5. Once the browser session has started, on every path of the URL loop (whatever
  the browser does, so also when the loop skips URLs or raises) the trace of the whole
  run is: the events up to the start of the session, the events of the loop, none of
  which is \<open>Quit\<close>, then \<open>Quit\<close>, then only what the end of the run prints or
  writes. So \<open>driver.quit\<close> is called exactly once, after the loop and before the run
  goes on or ends; and when the loop raised, the run ends with an exception.
\<close>

theorem main_quits_once:
  assumes "urls \<noteq> []"
    and "driver_call w StartBrowser (log_event (Mkdir (out_dir a)) st) = (Inr k, st0)"
    and "main w a urls st = (out, st')"
  shows "\<exists>loop_events final_events.
           trace st' = trace st0 @ loop_events @ [Quit] @ final_events
         \<and> Quit \<notin> set loop_events
         \<and> set final_events \<subseteq> {Print NoPdfs, WriteMerged (merged a), Print (Done (merged a)),
                                  Print (IndividualPdfs (out_dir a))}
         \<and> count_list (trace st') Quit = count_list (trace st) Quit + 1
         \<and> (\<forall>e. fst (process_urls w a (if letter a then 8.5 else 8.27) (length urls) 1 urls
                        (st0\<lparr>pdf_paths := []\<rparr>)) = Inl e \<longrightarrow> (\<exists>e'. out = Raised e'))"
proof -
  let ?width = "if letter a then 8.5 else 8.27 :: real"
  obtain r st1 where loop: "process_urls w a ?width (length urls) 1 urls (st0\<lparr>pdf_paths := []\<rparr>) = (r, st1)"
    by (cases "process_urls w a ?width (length urls) 1 urls (st0\<lparr>pdf_paths := []\<rparr>)")
  obtain q st2 where quit: "driver_call w Quit st1 = (q, st2)"
    by (cases "driver_call w Quit st1")
  have m: "main w a urls st =
           (case q of
              Inl e \<Rightarrow> (Raised e, st2)
            | Inr _ \<Rightarrow> (case r of Inl e \<Rightarrow> (Raised e, st2) | Inr _ \<Rightarrow> finish a st2))"
    using assms(1,2) loop quit by (rule main_started)
  obtain evs where evs: "trace st1 = trace st0 @ evs" and nq: "Quit \<notin> set evs"
    using process_urls_loop_events(1) [OF loop] by auto
  have t2: "trace st2 = trace st0 @ evs @ [Quit]"
    using driver_call_Quit_trace [OF quit] evs by simp
  obtain fin where fin: "trace (snd (finish a st2)) = trace st2 @ fin"
    and fs: "set fin \<subseteq> {Print NoPdfs, WriteMerged (merged a), Print (Done (merged a)),
                          Print (IndividualPdfs (out_dir a))}"
    using finish_trace [of a st2] by blast
  have "st' = st2 \<or> st' = snd (finish a st2)"
    using m assms(3) by (auto split: sum.splits) (metis snd_conv)
  then obtain final_events where tr: "trace st' = trace st0 @ evs @ [Quit] @ final_events"
    and sub: "set final_events \<subseteq> {Print NoPdfs, WriteMerged (merged a), Print (Done (merged a)),
                          Print (IndividualPdfs (out_dir a))}"
  proof
    assume "st' = st2"
    then have "trace st' = trace st0 @ evs @ [Quit] @ []" using t2 by simp
    then show ?thesis using that [of "[]"] by simp
  next
    assume "st' = snd (finish a st2)"
    then have "trace st' = trace st0 @ evs @ [Quit] @ fin" using t2 fin by simp
    then show ?thesis using that [of fin] fs by simp
  qed
  have nqf: "Quit \<notin> set final_events" using sub by auto
  have t0: "trace st0 = trace st @ [Mkdir (out_dir a), StartBrowser]"
    using assms(2) by (rule driver_call_StartBrowser_trace)
  have cnt: "count_list (trace st') Quit = count_list (trace st) Quit + 1"
    using nq nqf unfolding tr t0 by (simp add: count_list_0_iff)
  have exc: "\<exists>e'. out = Raised e'" if "r = Inl e" for e
    using m assms(3) that by (auto split: sum.splits)
  show ?thesis
    using tr nq sub cnt exc loop by auto
qed

lemma page_name_sample: "page_name (Suc 0) ''https://a.b/c'' = ''001_a.b_c.pdf''"
proof -
  have "format_03d (Suc 0) = ''001''" by code_simp
  moreover have "safe_name ''https://a.b/c'' = ''a.b_c''"
    by (simp add: safe_name_def split_str_def strip_def lstrip_def rstrip_def isspace_def
        SAFE_class_def)
  ultimately show ?thesis by (simp add: page_name_def)
qed

lemma main_breaks_at_3:
  "main (raising [(3, OtherError)]) args0 [''https://a.b/c''] state0
     = (Raised OtherError,
        \<lparr>clock = 5, calls = 5,
         trace = [Mkdir ''pdf_pages'', StartBrowser, Print (Printing 1 1 ''001_a.b_c.pdf''),
                  Sleep 3.5, Get ''https://a.b/c'', Sleep 1.5, Get ''https://a.b/c'', Sleep 0,
                  SetEmulatedMedia, Quit],
         files = Map.empty, pdf_paths = []\<rparr>)"
  by (simp add: main_def process_url_def page_name_sample cooldown_def
      retry_loop.simps [of _ _ _ _ _ 0] run_defs raising_def world0_def args0_def state0_def
      eval_nat_numeral)

theorem main_quits_once_witness:
  "[''https://a.b/c''] \<noteq> []
   \<and> driver_call (raising [(3, OtherError)]) StartBrowser (log_event (Mkdir (out_dir args0)) state0)
       = (Inr 0, state0\<lparr>calls := 1, trace := [Mkdir ''pdf_pages'', StartBrowser]\<rparr>)
   \<and> main (raising [(3, OtherError)]) args0 [''https://a.b/c''] state0
       = (Raised OtherError,
          \<lparr>clock = 5, calls = 5,
           trace = [Mkdir ''pdf_pages'', StartBrowser, Print (Printing 1 1 ''001_a.b_c.pdf''),
                    Sleep 3.5, Get ''https://a.b/c'', Sleep 1.5, Get ''https://a.b/c'', Sleep 0,
                    SetEmulatedMedia, Quit],
           files = Map.empty, pdf_paths = []\<rparr>)
   \<and> count_list [Mkdir ''pdf_pages'', StartBrowser, Print (Printing 1 1 ''001_a.b_c.pdf''),
                    Sleep 3.5, Get ''https://a.b/c'', Sleep 1.5, Get ''https://a.b/c'', Sleep 0,
                    SetEmulatedMedia, Quit] Quit = count_list (trace state0) Quit + 1"
proof -
  have h1: "[''https://a.b/c''] \<noteq> []" by simp
  have h2: "driver_call (raising [(3, OtherError)]) StartBrowser (log_event (Mkdir (out_dir args0)) state0)
       = (Inr 0, state0\<lparr>calls := 1, trace := [Mkdir ''pdf_pages'', StartBrowser]\<rparr>)"
    by (simp add: driver_call_def log_event_def raising_def world0_def args0_def state0_def)
  note h3 = main_breaks_at_3
  from main_quits_once [OF h1 h2 h3]
  obtain loop_events final_events where "count_list (trace (\<lparr>clock = 5, calls = 5,
           trace = [Mkdir ''pdf_pages'', StartBrowser, Print (Printing 1 1 ''001_a.b_c.pdf''),
                    Sleep 3.5, Get ''https://a.b/c'', Sleep 1.5, Get ''https://a.b/c'', Sleep 0,
                    SetEmulatedMedia, Quit],
           files = Map.empty, pdf_paths = []\<rparr> :: nat state)) Quit
             = count_list (trace state0) Quit + 1"
    by (elim exE conjE)
  then show ?thesis using h1 h2 h3 by simp
qed

lemma docs_exist: "set ps \<subseteq> dom f \<Longrightarrow> \<exists>docs. map f ps = map Some docs"
proof (induction ps)
  case Nil
  then show ?case by simp
next
  case (Cons p ps)
  then obtain docs where "map f ps = map Some docs" by auto
  moreover obtain d where "f p = Some d" using Cons.prems by auto
  ultimately have "map f (p # ps) = map Some (d # docs)" by simp
  then show ?case by blast
qed

lemma finish_empty:
  "pdf_paths st = [] \<Longrightarrow> finish a st = (Exit 2, log_event (Print NoPdfs) st)"
  by (simp add: finish_def)

lemma finish_merged:
  assumes "pdf_paths st \<noteq> []" and "map (files st) (pdf_paths st) = map Some docs"
  shows "\<exists>st'. finish a st = (Completed, st')
           \<and> files st' = (files st)(merged a \<mapsto> concat docs)
           \<and> trace st' = trace st @ [WriteMerged (merged a), Print (Done (merged a)),
                                      Print (IndividualPdfs (out_dir a))]"
proof -
  have "merge_pdfs (files st) (pdf_paths st) (merged a) = Inr ((files st)(merged a \<mapsto> concat docs))"
    using merge_inputs_concat [OF assms(2), of "[]"] by (simp add: merge_pdfs_def)
  then show ?thesis using assms(1) by (simp add: finish_def log_event_def)
qed

text \<open>
  C6. The run ends in one of three ways that exclude each other.
  \<^item> With no URL it exits with status 1 after printing the message; nothing else has
    happened (no call to the browser, no file).
  \<^item> With URLs, when the session has started, the loop has ended without an exception
    and \<open>driver.quit\<close> has returned: if no page was captured, the run exits with
    status 2 after printing the message, and the files are what they were at the end
    of the loop (no merged file is written);
  \<^item> otherwise every captured page has its file, the merged path receives the
    concatenation of their documents in the order of capture, and the run completes.
\<close>

theorem main_exit_conditions:
  "main w a [] st = (Exit 1, log_event (Print NoUrls) st)
   \<and> (urls \<noteq> [] \<longrightarrow>
       driver_call w StartBrowser (log_event (Mkdir (out_dir a)) st) = (Inr k, st0) \<longrightarrow>
       process_urls w a (if letter a then 8.5 else 8.27) (length urls) 1 urls
           (st0\<lparr>pdf_paths := []\<rparr>) = (Inr (), st1) \<longrightarrow>
       driver_call w Quit st1 = (Inr k', st2) \<longrightarrow>
         (pdf_paths st1 = [] \<longrightarrow>
            main w a urls st = (Exit 2, log_event (Print NoPdfs) st2)
            \<and> files (log_event (Print NoPdfs) st2) = files st1)
       \<and> (pdf_paths st1 \<noteq> [] \<longrightarrow>
            (\<exists>docs st'. map (files st1) (pdf_paths st1) = map Some docs
               \<and> main w a urls st = (Completed, st')
               \<and> files st' = (files st1)(merged a \<mapsto> concat docs)
               \<and> trace st' = trace st1 @ [Quit, WriteMerged (merged a), Print (Done (merged a)),
                                            Print (IndividualPdfs (out_dir a))])))
   \<and> Exit 1 \<noteq> Exit 2 \<and> Exit 1 \<noteq> Completed \<and> Exit 2 \<noteq> Completed"
proof -
  have none: "main w a [] st = (Exit 1, log_event (Print NoUrls) st)"
    by (simp add: main_def)
  have some: "(pdf_paths st1 = [] \<longrightarrow>
            main w a urls st = (Exit 2, log_event (Print NoPdfs) st2)
            \<and> files (log_event (Print NoPdfs) st2) = files st1)
       \<and> (pdf_paths st1 \<noteq> [] \<longrightarrow>
            (\<exists>docs st'. map (files st1) (pdf_paths st1) = map Some docs
               \<and> main w a urls st = (Completed, st')
               \<and> files st' = (files st1)(merged a \<mapsto> concat docs)
               \<and> trace st' = trace st1 @ [Quit, WriteMerged (merged a), Print (Done (merged a)),
                                            Print (IndividualPdfs (out_dir a))]))"
    if u: "urls \<noteq> []"
      and s: "driver_call w StartBrowser (log_event (Mkdir (out_dir a)) st) = (Inr k, st0)"
      and l: "process_urls w a (if letter a then 8.5 else 8.27) (length urls) 1 urls
           (st0\<lparr>pdf_paths := []\<rparr>) = (Inr (), st1)"
      and q: "driver_call w Quit st1 = (Inr k', st2)"
  proof -
    have m: "main w a urls st = finish a st2"
      using main_started [OF u s l q] by simp
    have q2: "trace st2 = trace st1 @ [Quit]" "files st2 = files st1" "pdf_paths st2 = pdf_paths st1"
      using driver_call_Quit_trace [OF q] by simp_all
    have inv: "set (pdf_paths st1) \<subseteq> dom (files st1)"
      using process_urls_loop_events(2) [OF l] by simp
    have e: "main w a urls st = (Exit 2, log_event (Print NoPdfs) st2)
            \<and> files (log_event (Print NoPdfs) st2) = files st1"
      if "pdf_paths st1 = []"
      using that m q2 by (simp add: finish_empty log_event_def)
    have c: "\<exists>docs st'. map (files st1) (pdf_paths st1) = map Some docs
               \<and> main w a urls st = (Completed, st')
               \<and> files st' = (files st1)(merged a \<mapsto> concat docs)
               \<and> trace st' = trace st1 @ [Quit, WriteMerged (merged a), Print (Done (merged a)),
                                            Print (IndividualPdfs (out_dir a))]"
      if ne: "pdf_paths st1 \<noteq> []"
    proof -
      obtain docs where d: "map (files st1) (pdf_paths st1) = map Some docs"
        using docs_exist [OF inv] by blast
      have "pdf_paths st2 \<noteq> []" and "map (files st2) (pdf_paths st2) = map Some docs"
        using ne d q2 by simp_all
      from finish_merged [OF this, of a] obtain st' where
        "finish a st2 = (Completed, st')"
        and "files st' = (files st2)(merged a \<mapsto> concat docs)"
        and "trace st' = trace st2 @ [WriteMerged (merged a), Print (Done (merged a)),
                                      Print (IndividualPdfs (out_dir a))]"
        by blast
      then show ?thesis using d m q2 by auto
    qed
    show ?thesis using e c by blast
  qed
  show ?thesis using none some by simp
qed

lemma page_name_sample_2: "page_name (Suc (Suc 0)) ''https://a.b/d?e=1'' = ''002_a.b_d_e_1.pdf''"
proof -
  have "format_03d (Suc (Suc 0)) = ''002''" by code_simp
  moreover have "safe_name ''https://a.b/d?e=1'' = ''a.b_d_e_1''"
    by (simp add: safe_name_def split_str_def strip_def lstrip_def rstrip_def isspace_def
        SAFE_class_def)
  ultimately show ?thesis by (simp add: page_name_def)
qed

lemmas loop_defs =
  process_url_def page_name_sample page_name_sample_2 cooldown_def retry_loop.simps [of _ _ _ _ _ 0]
  retry_loop.simps [of _ _ _ _ _ "Suc 0"] retry_loop.simps [of _ _ _ _ _ "Suc (Suc 0)"]
  retry_loop.simps [of _ _ _ _ _ "Suc (Suc (Suc 0))"] back_off_def
  run_defs raising_def world0_def args0_def state0_def eval_nat_numeral

lemma loop_all_fail:
  "process_urls (raising [(1, WebDriverException), (2, WebDriverException), (3, WebDriverException)])
       args0 (if letter args0 then 8.5 else 8.27) (length [''https://a.b/c'']) 1 [''https://a.b/c'']
       (state0\<lparr>calls := 1, trace := [Mkdir ''pdf_pages'', StartBrowser], pdf_paths := []\<rparr>)
     = (Inr (),
        \<lparr>clock = 24.5, calls = 4,
         trace = [Mkdir ''pdf_pages'', StartBrowser, Print (Printing 1 1 ''001_a.b_c.pdf''),
                  Sleep 3.5,
                  Get ''https://a.b/c'', Print (AttemptFailed 1 WebDriverException 3), Sleep 3,
                  Get ''https://a.b/c'', Print (AttemptFailed 2 WebDriverException 6), Sleep 6,
                  Get ''https://a.b/c'', Print (AttemptFailed 3 WebDriverException 12), Sleep 12],
         files = Map.empty, pdf_paths = []\<rparr>)"
  by (simp add: loop_defs)

lemma loop_two_pages:
  "process_urls world0 args0 (if letter args0 then 8.5 else 8.27)
       (length [''https://a.b/c'', ''https://a.b/d?e=1'']) 1 [''https://a.b/c'', ''https://a.b/d?e=1'']
       (state0\<lparr>calls := 1, trace := [Mkdir ''pdf_pages'', StartBrowser], pdf_paths := []\<rparr>)
     = (Inr (),
        \<lparr>clock = 10, calls = 11,
         trace = [Mkdir ''pdf_pages'', StartBrowser,
                  Print (Printing 1 2 ''001_a.b_c.pdf''), Sleep 3.5,
                  Get ''https://a.b/c'', Sleep 1.5, Get ''https://a.b/c'', Sleep 0,
                  SetEmulatedMedia, ExecuteScript, PrintToPDF 8.27 10.8 0.4,
                  WriteBytes ''pdf_pages/001_a.b_c.pdf'',
                  Print (Printing 2 2 ''002_a.b_d_e_1.pdf''), Sleep 3.5,
                  Get ''https://a.b/d?e=1'', Sleep 1.5, Get ''https://a.b/d?e=1'', Sleep 0,
                  SetEmulatedMedia, ExecuteScript, PrintToPDF 8.27 10.8 0.4,
                  WriteBytes ''pdf_pages/002_a.b_d_e_1.pdf''],
         files = [''pdf_pages/001_a.b_c.pdf'' \<mapsto> [5], ''pdf_pages/002_a.b_d_e_1.pdf'' \<mapsto> [10]],
         pdf_paths = [''pdf_pages/001_a.b_c.pdf'', ''pdf_pages/002_a.b_d_e_1.pdf'']\<rparr>)"
  by (simp add: loop_defs)

theorem main_exit_conditions_witness:
  "main world0 args0 [] state0 = (Exit 1, state0\<lparr>trace := [Print NoUrls]\<rparr>)
   \<and> main (raising [(1, WebDriverException), (2, WebDriverException), (3, WebDriverException)])
        args0 [''https://a.b/c''] state0
       = (Exit 2,
          \<lparr>clock = 24.5, calls = 5,
           trace = [Mkdir ''pdf_pages'', StartBrowser, Print (Printing 1 1 ''001_a.b_c.pdf''),
                    Sleep 3.5,
                    Get ''https://a.b/c'', Print (AttemptFailed 1 WebDriverException 3), Sleep 3,
                    Get ''https://a.b/c'', Print (AttemptFailed 2 WebDriverException 6), Sleep 6,
                    Get ''https://a.b/c'', Print (AttemptFailed 3 WebDriverException 12), Sleep 12,
                    Quit, Print NoPdfs],
           files = Map.empty, pdf_paths = []\<rparr>)
   \<and> (\<exists>st'. main world0 args0 [''https://a.b/c'', ''https://a.b/d?e=1''] state0 = (Completed, st')
          \<and> files st' ''merged.pdf'' = Some [5, 10])"
proof -
  let ?w = "raising [(1, WebDriverException), (2, WebDriverException), (3, WebDriverException)]"
  let ?st0 = "state0\<lparr>calls := 1, trace := [Mkdir ''pdf_pages'', StartBrowser]\<rparr>"
  have a: "main world0 args0 [] state0 = (Exit 1, state0\<lparr>trace := [Print NoUrls]\<rparr>)"
    using main_exit_conditions [of world0 args0 state0]
    by (simp add: log_event_def state0_def)
  have s: "driver_call ?w StartBrowser (log_event (Mkdir (out_dir args0)) state0) = (Inr 0, ?st0)"
    by (simp add: driver_call_def log_event_def raising_def world0_def args0_def state0_def)
  let ?st1 = "\<lparr>clock = 24.5, calls = 4,
         trace = [Mkdir ''pdf_pages'', StartBrowser, Print (Printing 1 1 ''001_a.b_c.pdf''),
                  Sleep 3.5,
                  Get ''https://a.b/c'', Print (AttemptFailed 1 WebDriverException 3), Sleep 3,
                  Get ''https://a.b/c'', Print (AttemptFailed 2 WebDriverException 6), Sleep 6,
                  Get ''https://a.b/c'', Print (AttemptFailed 3 WebDriverException 12), Sleep 12],
         files = Map.empty, pdf_paths = []\<rparr> :: nat state"
  have l: "process_urls ?w args0 (if letter args0 then 8.5 else 8.27) (length [''https://a.b/c''])
             1 [''https://a.b/c''] (?st0\<lparr>pdf_paths := []\<rparr>) = (Inr (), ?st1)"
    using loop_all_fail by (simp add: state0_def)
  have q: "driver_call ?w Quit ?st1 = (Inr 4, ?st1\<lparr>calls := 5, trace := trace ?st1 @ [Quit]\<rparr>)"
    by (simp add: driver_call_def log_event_def raising_def world0_def)
  have b: "main ?w args0 [''https://a.b/c''] state0
             = (Exit 2, log_event (Print NoPdfs) (?st1\<lparr>calls := 5, trace := trace ?st1 @ [Quit]\<rparr>))"
    using main_exit_conditions [of ?w args0 state0 "[''https://a.b/c'']" 0 ?st0 ?st1 4
        "?st1\<lparr>calls := 5, trace := trace ?st1 @ [Quit]\<rparr>"] s l q
    by simp
  let ?t0 = "state0\<lparr>calls := 1, trace := [Mkdir ''pdf_pages'', StartBrowser]\<rparr>"
  let ?urls = "[''https://a.b/c'', ''https://a.b/d?e=1'']"
  let ?t1 = "\<lparr>clock = 10, calls = 11,
         trace = [Mkdir ''pdf_pages'', StartBrowser,
                  Print (Printing 1 2 ''001_a.b_c.pdf''), Sleep 3.5,
                  Get ''https://a.b/c'', Sleep 1.5, Get ''https://a.b/c'', Sleep 0,
                  SetEmulatedMedia, ExecuteScript, PrintToPDF 8.27 10.8 0.4,
                  WriteBytes ''pdf_pages/001_a.b_c.pdf'',
                  Print (Printing 2 2 ''002_a.b_d_e_1.pdf''), Sleep 3.5,
                  Get ''https://a.b/d?e=1'', Sleep 1.5, Get ''https://a.b/d?e=1'', Sleep 0,
                  SetEmulatedMedia, ExecuteScript, PrintToPDF 8.27 10.8 0.4,
                  WriteBytes ''pdf_pages/002_a.b_d_e_1.pdf''],
         files = [''pdf_pages/001_a.b_c.pdf'' \<mapsto> [5], ''pdf_pages/002_a.b_d_e_1.pdf'' \<mapsto> [10]],
         pdf_paths = [''pdf_pages/001_a.b_c.pdf'', ''pdf_pages/002_a.b_d_e_1.pdf'']\<rparr> :: nat state"
  have s': "driver_call world0 StartBrowser (log_event (Mkdir (out_dir args0)) state0) = (Inr 0, ?t0)"
    by (simp add: driver_call_def log_event_def world0_def args0_def state0_def)
  have l': "process_urls world0 args0 (if letter args0 then 8.5 else 8.27) (length ?urls)
             1 ?urls (?t0\<lparr>pdf_paths := []\<rparr>) = (Inr (), ?t1)"
    using loop_two_pages by (simp add: state0_def)
  have q': "driver_call world0 Quit ?t1 = (Inr 11, ?t1\<lparr>calls := 12, trace := trace ?t1 @ [Quit]\<rparr>)"
    by (simp add: driver_call_def log_event_def world0_def)
  have ne: "pdf_paths ?t1 \<noteq> []" by simp
  obtain docs st' where d: "map (files ?t1) (pdf_paths ?t1) = map Some docs"
    and m: "main world0 args0 ?urls state0 = (Completed, st')"
    and f: "files st' = (files ?t1)(merged args0 \<mapsto> concat docs)"
    and p: "trace st' = trace ?t1 @ [Quit, WriteMerged (merged args0), Print (Done (merged args0)),
                                            Print (IndividualPdfs (out_dir args0))]"
    using main_exit_conditions [of world0 args0 state0 ?urls 0 ?t0 ?t1 11
        "?t1\<lparr>calls := 12, trace := trace ?t1 @ [Quit]\<rparr>"] s' l' q' ne
    by blast
  have "map Some docs = [Some [5], Some [10]]"
    using d by simp
  then have "docs = [[5], [10]]" by auto
  then have f': "files st' ''merged.pdf'' = Some [5, 10]"
    using f by (simp add: args0_def)
  show ?thesis
    using a b m f' by (simp add: log_event_def)
qed



lemma polling_same: "polling st st"
  by (simp add: polling_def)




lemma print_captcha_polling:
  "m = CaptchaDetected \<or> m = CaptchaCleared \<or> m = CaptchaTimedOut \<Longrightarrow> steps polling (print_msg m)"
  by (auto simp: steps_def polling_def print_msg_def log_event_def)
































end
